theory Spec2Isabelle
  imports Complex_Main
begin

section \<open>Strings, toasts and the target element\<close>

text \<open>
  A JavaScript string is a sequence of UTF-16 code units; a code unit is modelled as a
  natural number, so \<open>length\<close> is the source's \<open>.length\<close>. \<open>js\<close> embeds an ASCII
  literal. JavaScript numbers are IEEE doubles in the source. The model rounds to the
  nearest double (\<open>fl\<close>, below) in the index arithmetic of the resampler, which decides
  lengths and window bounds; sample values and energies are computed with exact reals,
  and millisecond clocks with \<open>int\<close>.
\<close>

type_synonym jsstring = "nat list"

definition js :: "string \<Rightarrow> jsstring" where
  "js s = map of_char s"

text \<open>The code units \<open>String.prototype.trim\<close> strips (WhiteSpace and LineTerminator).\<close>

definition isWhiteSpace :: "nat \<Rightarrow> bool" where
  "isWhiteSpace c =
     (c = 9 \<or> c = 10 \<or> c = 11 \<or> c = 12 \<or> c = 13 \<or> c = 32 \<or> c = 160 \<or> c = 5760
      \<or> (8192 \<le> c \<and> c \<le> 8202) \<or> c = 8232 \<or> c = 8233 \<or> c = 8239 \<or> c = 8287
      \<or> c = 12288 \<or> c = 65279)"

definition trim :: "jsstring \<Rightarrow> jsstring" where
  "trim s = rev (dropWhile isWhiteSpace (rev (dropWhile isWhiteSpace s)))"

text \<open>\<open>a.startsWith(b)\<close>.\<close>

definition startsWith :: "jsstring \<Rightarrow> jsstring \<Rightarrow> bool" where
  "startsWith a b = (take (length b) a = b)"

datatype ToastKind = ToastSuccess | ToastError | ToastInfo

type_synonym toast = "jsstring \<times> ToastKind \<times> nat"

datatype btn = BtnIdle | BtnRecording | BtnProcessing

text \<open>
  The element the microphone button is attached to (\<open>currentEl\<close>). A form field
  (INPUT, TEXTAREA) carries \<open>fieldValue\<close> and its selection offsets; a rich editor carries
  child nodes, flattened to a list. \<open>isContentEditable\<close> stands for the test
  \<open>el.isContentEditable || el.getAttribute("contenteditable") === "true"\<close>,
  \<open>isProseMirror\<close> for \<open>el.classList.contains("ProseMirror") || el.id === "prompt-textarea"\<close>.
  \<open>docSelection\<close> is the document selection as the script finds it: no range, a range
  outside the element, or a collapsed range at a child offset of the element.
  \<open>selectionStart\<close> is \<open>None\<close> (\<open>null\<close>) on a field whose type has no selection API
  (\<open>email\<close>, \<open>number\<close>); assigning to it there throws.
  DOM events dispatched to the page (\<open>input\<close>, \<open>change\<close>, \<open>keyup\<close>) are not modelled.
\<close>

datatype node = TextNode jsstring | LiveSpan jsstring

datatype selection = NoRange | RangeOutside | RangeAt nat

record element =
  isContentEditable :: bool
  isProseMirror :: bool
  fieldValue :: jsstring
  selectionStart :: "nat option"
  selectionEnd :: "nat option"
  childNodes :: "node list"
  docSelection :: selection

text \<open>A plain text field holding \<open>v\<close>, the caret at its end.\<close>

definition plain_field :: "jsstring \<Rightarrow> element" where
  "plain_field v =
     \<lparr>isContentEditable = False, isProseMirror = False, fieldValue = v,
      selectionStart = Some (length v), selectionEnd = Some (length v),
      childNodes = [], docSelection = NoRange\<rparr>"

text \<open>The closure variables both content scripts declare.\<close>

record ui =
  isRecording :: bool
  audioCtx :: "real option"
  currentEl :: "element option"
  micBtn :: btn
  toasts :: "toast list"

text \<open>
  \<open>audioCtx\<close> holds the sample rate of the AudioContext, \<open>None\<close> for \<open>null\<close>; the
  script creates and releases \<open>micStream\<close>, \<open>sourceNode\<close> and \<open>procNode\<close> together with
  it. \<open>toasts\<close> lists the calls of \<open>showToast\<close> (message, kind, timeout) in order.
\<close>

definition showToast :: "jsstring \<Rightarrow> ToastKind \<Rightarrow> nat \<Rightarrow> 'a ui_scheme \<Rightarrow> 'a ui_scheme" where
  "showToast msg kind timeout s = s\<lparr>toasts := toasts s @ [(msg, kind, timeout)]\<rparr>"

definition setBtnRecording :: "'a ui_scheme \<Rightarrow> 'a ui_scheme" where
  "setBtnRecording s = s\<lparr>micBtn := BtnRecording\<rparr>"

definition setBtnProcessing :: "'a ui_scheme \<Rightarrow> 'a ui_scheme" where
  "setBtnProcessing s = s\<lparr>micBtn := BtnProcessing\<rparr>"

definition resetBtn :: "'a ui_scheme \<Rightarrow> 'a ui_scheme" where
  "resetBtn s = s\<lparr>micBtn := BtnIdle\<rparr>"

text \<open>
  Exceptions are values: \<open>Done x\<close> is a normal return with result \<open>x\<close>, \<open>Threw e x\<close> an
  exception \<open>e\<close> thrown when the state had become \<open>x\<close>. The message of an exception is
  the host's own text; the model writes the name of the exception for it.
\<close>

datatype jserror = TypeError | InvalidStateError | InvalidNodeTypeError

datatype 'a outcome = Done 'a | Threw jserror 'a

fun state_of :: "'a outcome \<Rightarrow> 'a" where
  "state_of (Done x) = x"
| "state_of (Threw e x) = x"

definition errorMessage :: "jserror \<Rightarrow> jsstring" where
  "errorMessage e =
     (case e of
        TypeError \<Rightarrow> js ''TypeError''
      | InvalidStateError \<Rightarrow> js ''InvalidStateError''
      | InvalidNodeTypeError \<Rightarrow> js ''InvalidNodeTypeError'')"

text \<open>
  The assignment \<open>input.selectionStart = input.selectionEnd = caret\<close>: the host clamps
  the offset to the length of the value, and throws on a field without selection API.
\<close>

definition setCaret :: "element \<Rightarrow> nat \<Rightarrow> element outcome" where
  "setCaret el caret =
     (case selectionStart el of
        None \<Rightarrow> Threw InvalidStateError el
      | Some k \<Rightarrow>
          Done (el\<lparr>selectionStart := Some (min caret (length (fieldValue el))),
                  selectionEnd := Some (min caret (length (fieldValue el)))\<rparr>))"

text \<open>
  \<open>insertTextAtCursor\<close>: in a rich editor the text node goes where the selection is (a
  range outside the element puts it outside the element), or is appended when there is
  no range; in a form field it replaces the selected slice of the value, and the caret
  is set after the value has been assigned.
\<close>

definition insertTextAtCursor :: "element \<Rightarrow> jsstring \<Rightarrow> element outcome" where
  "insertTextAtCursor el txt =
     (if isContentEditable el then
        (case docSelection el of
           RangeAt k \<Rightarrow>
             Done (el\<lparr>childNodes := take k (childNodes el) @ [TextNode txt]
                                      @ drop k (childNodes el),
                     docSelection := RangeAt (min k (length (childNodes el)) + 1)\<rparr>)
         | RangeOutside \<Rightarrow> Done el
         | NoRange \<Rightarrow> Done (el\<lparr>childNodes := childNodes el @ [TextNode txt]\<rparr>))
      else
        let start = (case selectionStart el of Some i \<Rightarrow> i | None \<Rightarrow> length (fieldValue el));
            endIdx = (case selectionEnd el of Some i \<Rightarrow> i | None \<Rightarrow> length (fieldValue el));
            caret = start + length txt
        in setCaret
             (el\<lparr>fieldValue := take start (fieldValue el) @ txt @ drop endIdx (fieldValue el)\<rparr>)
             caret)"

section \<open>The resampler (\<open>downsampleFloat32\<close>, \<open>floatTo16BitPCM\<close>)\<close>

datatype samples = Float32Array "real list" | Int16Array "int list"

text \<open>
  \<open>fl x\<close> is the double nearest to \<open>x\<close> (53 significant bits, ties to the even
  significand), for \<open>x\<close> in the range of normal doubles: the result of a division or a
  multiplication of doubles is \<open>fl\<close> of the exact result.
\<close>

definition round_half_even :: "real \<Rightarrow> int" where
  "round_half_even x =
     (let f = \<lfloor>x\<rfloor>; d = x - of_int f
      in if d < 1 / 2 then f
         else if 1 / 2 < d then f + 1
         else if even f then f else f + 1)"

definition fl :: "real \<Rightarrow> real" where
  "fl x =
     (if x = 0 then 0
      else
        let e = \<lfloor>log 2 \<bar>x\<bar>\<rfloor> - 52
        in sgn x * of_int (round_half_even (\<bar>x\<bar> / 2 powr of_int e)) * 2 powr of_int e)"

text \<open>
  Storing a number into an \<open>Int16Array\<close> truncates it toward zero and wraps it modulo
  \<open>2^16\<close> into the signed range.
\<close>

definition toInt16 :: "real \<Rightarrow> int" where
  "toInt16 x =
     (let t = (if 0 \<le> x then \<lfloor>x\<rfloor> else \<lceil>x\<rceil>);
          m = t mod 65536
      in if 32768 \<le> m then m - 65536 else m)"

fun floatTo16BitPCM :: "samples \<Rightarrow> int list" where
  "floatTo16BitPCM (Int16Array xs) = xs"
| "floatTo16BitPCM (Float32Array xs) =
     map (\<lambda>x. let s = max (- 1) (min 1 x)
              in toInt16 (if s < 0 then s * 32768 else s * 32767)) xs"

text \<open>
  One pass of the body of the \<open>while\<close> loop: the inner \<open>for\<close> loop sums the samples
  from \<open>offsetBuffer\<close> up to \<open>nextOffsetBuffer\<close> (and the end of the buffer), and the
  average, clamped, is scaled by \<open>0x7fff\<close> and stored.
\<close>

definition window_sample :: "real list \<Rightarrow> nat \<Rightarrow> nat \<Rightarrow> int" where
  "window_sample buffer offsetBuffer nextOffsetBuffer =
     (let window = map (\<lambda>i. buffer ! i)
                     [offsetBuffer ..< min nextOffsetBuffer (length buffer)];
          acc = sum_list window;
          count = length window;
          sample = acc / (if count = 0 then 1 else real count)
      in toInt16 (max (- 1) (min 1 sample) * 32767))"

function downsample_loop ::
  "real list \<Rightarrow> real \<Rightarrow> nat \<Rightarrow> nat \<Rightarrow> nat \<Rightarrow> int list \<Rightarrow> int list" where
  "downsample_loop buffer ratio newLen offsetResult offsetBuffer result =
     (if offsetResult < newLen then
        downsample_loop buffer ratio newLen (offsetResult + 1)
          (nat \<lfloor>fl (real (offsetResult + 1) * ratio)\<rfloor>)
          (result[offsetResult :=
             window_sample buffer offsetBuffer
               (nat \<lfloor>fl (real (offsetResult + 1) * ratio)\<rfloor>)])
      else result)"
  by pat_completeness auto
termination
  by (relation "measure (\<lambda>(buffer, ratio, newLen, offsetResult, offsetBuffer, result).
        newLen - offsetResult)") auto

definition downsampleFloat32 :: "real list \<Rightarrow> real \<Rightarrow> real \<Rightarrow> int list" where
  "downsampleFloat32 buffer inRate outRate =
     (if outRate = inRate then floatTo16BitPCM (Float32Array buffer)
      else if outRate > inRate then floatTo16BitPCM (Float32Array buffer)
      else
        let ratio = fl (inRate / outRate);
            newLen = nat \<lfloor>fl (real (length buffer) / ratio)\<rfloor>
        in downsample_loop buffer ratio newLen 0 0 (replicate newLen 0))"

section \<open>The batch recorder (\<open>client/entrypoints/content.ts\<close>)\<close>

text \<open>
  \<open>maxRecordingTimer\<close> is the handle \<open>setTimeout\<close> returned, identified with the
  deadline of the timeout; \<open>timeouts\<close> are the deadlines the host still has pending for
  the script. \<open>posted\<close> lists the audio bodies sent to \<open>/transcribe\<close>, \<open>logs\<close> the lines of
  \<open>log.info\<close> the model keeps.
\<close>

record recorder = ui +
  recordedChunks :: "int list list"
  recordingStartTime :: int
  maxRecordingTimer :: "int option"
  timeouts :: "int list"
  noiseFloor :: real
  vadHistory :: "real list"
  voiceDetectedFrames :: nat
  silenceFrames :: nat
  hasDetectedVoice :: bool
  micLevel :: real
  posted :: "int list list"
  logs :: "string list"

text \<open>
  What the environment answers: to \<open>getUserMedia\<close> and the construction of the audio
  graph (\<open>Unsupported\<close>: no \<open>navigator.mediaDevices\<close>; \<open>Denied\<close>: an exception;
  \<open>Granted r\<close>: an AudioContext at sample rate \<open>r\<close>), and to the POST of the audio
  (\<open>Failed m\<close>: an \<open>Error\<close> with message \<open>m\<close> is thrown, by \<open>fetch\<close>, by a status that
  is not ok, or for \<open>result.error\<close>; \<open>Result t\<close>: the body's \<open>text\<close>, if any).
\<close>

datatype media = Unsupported | Denied | Granted real

datatype response = Failed jsstring | Result "jsstring option"

definition RECORD_SAMPLE_RATE :: real where
  "RECORD_SAMPLE_RATE = 16000"

definition cleanupRecording :: "recorder \<Rightarrow> recorder" where
  "cleanupRecording s =
     (let s1 = s\<lparr>audioCtx := None\<rparr>
      in case maxRecordingTimer s1 of
           None \<Rightarrow> s1
         | Some h \<Rightarrow> s1\<lparr>timeouts := remove1 h (timeouts s1), maxRecordingTimer := None\<rparr>)"

text \<open>
  \<open>stopRecording\<close>, with the continuation after its \<open>await\<close>s run at once on the
  environment's answer \<open>resp\<close>. An exception of \<open>insertTextAtCursor\<close> lands in the
  \<open>catch\<close> like the other errors. The \<open>finally\<close> block (\<open>resetBtn\<close>,
  \<open>recordedChunks = []\<close>) closes every path that entered the \<open>try\<close>.
\<close>

definition stop_finally :: "recorder \<Rightarrow> recorder" where
  "stop_finally s = (resetBtn s)\<lparr>recordedChunks := []\<rparr>"

definition stopRecording :: "recorder \<Rightarrow> response \<Rightarrow> recorder" where
  "stopRecording s resp =
     (if \<not> isRecording s then s
      else
        let s1 = cleanupRecording
                   (showToast (js ''Transcribing'' @ [8230]) ToastInfo 3200
                      (setBtnProcessing (s\<lparr>isRecording := False\<rparr>)));
            combinedAudio = concat (recordedChunks s1)
        in if length combinedAudio = 0 then
             stop_finally (resetBtn (showToast (js ''No audio recorded.'') ToastInfo 1600 s1))
           else
             let s2 = s1\<lparr>posted := posted s1 @ [combinedAudio]\<rparr>
             in case resp of
                  Failed m \<Rightarrow>
                    stop_finally (showToast (js ''Error: '' @ m) ToastError 3200 s2)
                | Result t \<Rightarrow>
                    let txt = (case t of None \<Rightarrow> [] | Some x \<Rightarrow> trim x)
                    in case currentEl s2 of
                         Some el \<Rightarrow>
                           if txt \<noteq> [] then
                             (case insertTextAtCursor el txt of
                                Done el' \<Rightarrow>
                                  stop_finally
                                    (showToast (js ''Transcribed '' @ [10003]) ToastSuccess 1500
                                       (s2\<lparr>currentEl := Some el'\<rparr>))
                              | Threw e el' \<Rightarrow>
                                  stop_finally
                                    (showToast (js ''Error: '' @ errorMessage e) ToastError 3200
                                       (s2\<lparr>currentEl := Some el'\<rparr>)))
                           else stop_finally (showToast (js ''No speech detected.'') ToastInfo 1600 s2)
                       | None \<Rightarrow>
                           stop_finally (showToast (js ''No speech detected.'') ToastInfo 1600 s2))"

text \<open>The block features of the voice activity detector.\<close>

definition block_rms :: "int list \<Rightarrow> real" where
  "block_rms xs =
     (if xs = [] then 0
      else sqrt (real_of_int (sum_list (map (\<lambda>v. v * v) xs)) / real (length xs)))"

fun zero_crossings :: "int list \<Rightarrow> nat" where
  "zero_crossings (a # b # r) = (if b * a < 0 then 1 else 0) + zero_crossings (b # r)"
| "zero_crossings r = 0"

definition block_zcr :: "int list \<Rightarrow> real" where
  "block_zcr xs = real (zero_crossings xs) / real (length xs)"

text \<open>
  \<open>procNode.onaudioprocess\<close>. After \<open>cleanupRecording\<close> the read \<open>audioCtx!.sampleRate\<close>
  throws before anything is changed. On an empty block the source's \<open>rms\<close> is
  \<open>NaN || 0 = 0\<close> and its \<open>zcr\<close> is \<open>NaN\<close>, which fails \<open>zcr > 0.02\<close> as the model's \<open>0\<close>
  does. \<open>avgEnergy\<close> is computed and never read.
\<close>

definition onaudioprocess :: "recorder \<Rightarrow> real list \<Rightarrow> response \<Rightarrow> jserror + recorder" where
  "onaudioprocess s input resp =
     (case audioCtx s of
        None \<Rightarrow> Inl TypeError
      | Some rate \<Rightarrow>
          let downsampled = downsampleFloat32 input rate RECORD_SAMPLE_RATE;
              pcm = floatTo16BitPCM (Int16Array downsampled);
              rms = block_rms downsampled;
              zcr = block_zcr downsampled;
              nf = noiseFloor s * (95 / 100) + rms * (5 / 100);
              dynamicVoiceThreshold = nf * (35 / 10);
              pushed = vadHistory s @ [rms];
              s1 = s\<lparr>recordedChunks := recordedChunks s @ [pcm],
                     noiseFloor := nf,
                     vadHistory := (if length pushed > 30 then tl pushed else pushed),
                     micLevel := min 1 (rms * 20)\<rparr>;
              s2 = (if rms > dynamicVoiceThreshold \<and> zcr > 2 / 100 then
                      let s' = s1\<lparr>voiceDetectedFrames := voiceDetectedFrames s1 + 1,
                                   silenceFrames := 0\<rparr>
                      in if \<not> hasDetectedVoice s' \<and> voiceDetectedFrames s' > 5 then
                           showToast (js ''Listening'' @ [8230]) ToastInfo 1200
                             (s'\<lparr>hasDetectedVoice := True\<rparr>)
                         else s'
                    else
                      s1\<lparr>silenceFrames :=
                            (if hasDetectedVoice s1 then silenceFrames s1 + 1
                             else silenceFrames s1),
                          voiceDetectedFrames := voiceDetectedFrames s1 - 1\<rparr>)
          in Inr (if hasDetectedVoice s2 \<and> silenceFrames s2 > 45 then
                    stopRecording (s2\<lparr>logs := logs s2 @ [''Stopping due to silence'']\<rparr>) resp
                  else s2))"

definition startRecording :: "recorder \<Rightarrow> int \<Rightarrow> media \<Rightarrow> recorder" where
  "startRecording s now m =
     (if m = Unsupported \<or> currentEl s = None \<or> isRecording s then s
      else case m of
        Granted rate \<Rightarrow>
          (showToast (js ''Recording'' @ [8230] @ js '' Start speaking or click to stop.'')
             ToastInfo 2500
             (setBtnRecording
                (s\<lparr>audioCtx := Some rate, isRecording := True,
                    recordedChunks := [], recordingStartTime := now,
                    vadHistory := [], noiseFloor := 2 / 1000,
                    voiceDetectedFrames := 0, silenceFrames := 0,
                    hasDetectedVoice := False\<rparr>)))
          \<lparr>maxRecordingTimer := Some (now + 30000),
            timeouts := timeouts s @ [now + 30000]\<rparr>
      | _ \<Rightarrow> resetBtn (cleanupRecording (showToast (js ''Microphone error.'') ToastError 2600 s)))"

text \<open>The callback of the timeout, and the click handler of the microphone button.\<close>

definition maxRecordingTimeout :: "recorder \<Rightarrow> response \<Rightarrow> recorder" where
  "maxRecordingTimeout s resp = (if isRecording s then stopRecording s resp else s)"

definition micClick :: "recorder \<Rightarrow> int \<Rightarrow> media \<Rightarrow> response \<Rightarrow> recorder" where
  "micClick s now m resp =
     (if currentEl s = None then s
      else if isRecording s then stopRecording s resp
      else startRecording s now m)"

text \<open>
  The host's event loop, as far as the recorder sees it: events arrive with the clock
  reading \<open>t\<close>; a timeout whose deadline has been reached runs before the event is
  handled, and an exception of a handler leaves the state as it was. \<open>FocusChange\<close>
  stands for the focus, click and mutation handlers, which only reassign \<open>currentEl\<close>.
\<close>

datatype event = AudioProcess "real list" | MicClick media | FocusChange "element option" | Tick

definition fire_due :: "recorder \<Rightarrow> int \<Rightarrow> response \<Rightarrow> recorder" where
  "fire_due s t resp =
     foldl (\<lambda>s' d. if d \<in> set (timeouts s')
                   then maxRecordingTimeout (s'\<lparr>timeouts := remove1 d (timeouts s')\<rparr>) resp
                   else s')
       s (filter (\<lambda>d. d \<le> t) (timeouts s))"

definition process_block :: "recorder \<Rightarrow> response \<Rightarrow> real list \<Rightarrow> recorder" where
  "process_block s resp input =
     (case onaudioprocess s input resp of Inl e \<Rightarrow> s | Inr s' \<Rightarrow> s')"

definition handle :: "recorder \<Rightarrow> int \<Rightarrow> event \<Rightarrow> response \<Rightarrow> recorder" where
  "handle s t ev resp =
     (case ev of
        AudioProcess input \<Rightarrow> process_block s resp input
      | MicClick m \<Rightarrow> micClick s t m resp
      | FocusChange el \<Rightarrow> s\<lparr>currentEl := el\<rparr>
      | Tick \<Rightarrow> s)"

definition deliver :: "recorder \<Rightarrow> int \<times> event \<times> response \<Rightarrow> recorder" where
  "deliver s e = (case e of (t, ev, resp) \<Rightarrow> handle (fire_due s t resp) t ev resp)"

definition run :: "recorder \<Rightarrow> (int \<times> event \<times> response) list \<Rightarrow> recorder" where
  "run s es = foldl deliver s es"

text \<open>
  Feeding a session a sequence of capture blocks, and the vocabulary of the claims about
  the detector: a block is a voice candidate when its RMS exceeds 3.5 times the noise
  floor (as this block has just updated it) and its zero-crossing rate exceeds 0.02;
  \<open>classify\<close> lists, block by block, whether the block is a candidate in the state it
  meets. The onset signal is the toast \<open>Listening...\<close>; the silence timeout is the log
  line written before \<open>stopRecording\<close> is called.
\<close>

definition feed :: "recorder \<Rightarrow> response \<Rightarrow> real list list \<Rightarrow> recorder" where
  "feed s resp bs = foldl (\<lambda>s' b. process_block s' resp b) s bs"

definition voice_candidate :: "recorder \<Rightarrow> real list \<Rightarrow> bool" where
  "voice_candidate s input =
     (case audioCtx s of
        None \<Rightarrow> False
      | Some rate \<Rightarrow>
          let d = downsampleFloat32 input rate RECORD_SAMPLE_RATE;
              rms = block_rms d
          in rms > (noiseFloor s * (95 / 100) + rms * (5 / 100)) * (35 / 10)
             \<and> block_zcr d > 2 / 100)"

fun classify :: "recorder \<Rightarrow> response \<Rightarrow> real list list \<Rightarrow> bool list" where
  "classify s resp [] = []"
| "classify s resp (b # bs) = voice_candidate s b # classify (process_block s resp b) resp bs"

definition onsets :: "recorder \<Rightarrow> nat" where
  "onsets s = length (filter (\<lambda>t. fst t = js ''Listening'' @ [8230]) (toasts s))"

definition silence_stops :: "recorder \<Rightarrow> nat" where
  "silence_stops s = length (filter (\<lambda>l. l = ''Stopping due to silence'') (logs s))"

text \<open>
  A capture block delivered at time \<open>t\<close> is captured when the handler runs on it, that
  is, when the audio graph still exists once the due timeouts have fired.
\<close>

definition captured :: "recorder \<Rightarrow> int \<Rightarrow> real list \<Rightarrow> response \<Rightarrow> bool" where
  "captured s t b resp =
     (case onaudioprocess (fire_due s t resp) b resp of Inl e \<Rightarrow> False | Inr s' \<Rightarrow> True)"

text \<open>
  The invariant of the recorder at time \<open>t\<close>: while it records, the audio graph exists,
  the one pending timeout is the session's own, 30000 ms after its start, and that
  deadline has not been reached; while it does not, nothing is pending.
\<close>

definition recorder_ok :: "recorder \<Rightarrow> int \<Rightarrow> bool" where
  "recorder_ok s t =
     (if isRecording s then
        audioCtx s \<noteq> None
        \<and> maxRecordingTimer s = Some (recordingStartTime s + 30000)
        \<and> timeouts s = [recordingStartTime s + 30000]
        \<and> recordingStartTime s \<le> t \<and> t < recordingStartTime s + 30000
      else audioCtx s = None \<and> maxRecordingTimer s = None \<and> timeouts s = [])"

text \<open>The state of the script when it is loaded.\<close>

definition recorder_init :: "element option \<Rightarrow> recorder" where
  "recorder_init el =
     \<lparr>isRecording = False, audioCtx = None, currentEl = el, micBtn = BtnIdle, toasts = [],
      recordedChunks = [], recordingStartTime = 0, maxRecordingTimer = None, timeouts = [],
      noiseFloor = 2 / 1000, vadHistory = [], voiceDetectedFrames = 0, silenceFrames = 0,
      hasDetectedVoice = False, micLevel = 0, posted = [], logs = []\<rparr>"

section \<open>The streaming client (the content script of \<open>unnamed/part_000\<close>)\<close>

text \<open>
  \<open>ws\<close> is the variable of that name: \<open>None\<close> for \<open>null\<close>, else the ready state of the
  socket it refers to. \<open>sent\<close> lists what \<open>ws.send\<close> has put on the wire. \<open>liveNode\<close> is the
  live \<open>span\<close>, identified by its position among the child nodes of the target.
\<close>

datatype readyState = CONNECTING | OPEN | CLOSING | CLOSED

datatype client_msg = StartMsg nat jsstring | StopMsg | PcmChunk "int list"

datatype server_msg =
  Ready | Started | Partial "jsstring option" | Final "jsstring option"
  | ServerError jsstring | OtherMsg

record streamer = ui +
  ws :: "readyState option"
  sent :: "client_msg list"
  liveStartIdx :: "nat option"
  livePrevLen :: nat
  liveNode :: "nat option"
  lastPartial :: jsstring
  lastPartialTs :: int

definition PARTIAL_DEBOUNCE_MS :: int where
  "PARTIAL_DEBOUNCE_MS = 250"

definition PARTIAL_MIN_CHARS :: nat where
  "PARTIAL_MIN_CHARS = 3"

definition STREAM_SAMPLE_RATE :: nat where
  "STREAM_SAMPLE_RATE = 16000"

definition resetLiveState :: "streamer \<Rightarrow> streamer" where
  "resetLiveState s = s\<lparr>liveStartIdx := None, livePrevLen := 0, liveNode := None\<rparr>"

text \<open>
  Sequencing of statements that may throw: the rest runs on a normal return and is
  skipped by an exception. \<open>with_el\<close> stores the element a DOM operation worked on back
  into \<open>currentEl\<close> (the script and the page share the object).
\<close>

fun and_then :: "'a outcome \<Rightarrow> ('a \<Rightarrow> 'a outcome) \<Rightarrow> 'a outcome" where
  "and_then (Done x) f = f x"
| "and_then (Threw e x) f = Threw e x"

fun with_el :: "streamer \<Rightarrow> element outcome \<Rightarrow> streamer outcome" where
  "with_el s (Done el) = Done (s\<lparr>currentEl := Some el\<rparr>)"
| "with_el s (Threw e el) = Threw e (s\<lparr>currentEl := Some el\<rparr>)"

text \<open>
  \<open>updateLiveText\<close>. In an editor the span is created once, placed at the selection (at
  the end of the container when the selection is elsewhere or there is none), and its
  text is replaced on every call; in a form field the slice
  \<open>[liveStartIdx, liveStartIdx + livePrevLen)\<close> of the value is replaced, \<open>liveStartIdx\<close>
  and \<open>livePrevLen\<close> are assigned, and the caret is set last.
\<close>

definition updateLiveText :: "streamer \<Rightarrow> element \<Rightarrow> jsstring \<Rightarrow> streamer outcome" where
  "updateLiveText s el txt =
     (if isContentEditable el \<or> isProseMirror el then
        let placed =
              (case liveNode s of
                 Some i \<Rightarrow> (el, i)
               | None \<Rightarrow>
                   (case docSelection el of
                      RangeAt k \<Rightarrow>
                        let i = min k (length (childNodes el))
                        in (el\<lparr>childNodes := take i (childNodes el) @ [LiveSpan []]
                                                @ drop i (childNodes el),
                               docSelection := RangeAt (i + 1)\<rparr>, i)
                    | RangeOutside \<Rightarrow>
                        (el\<lparr>childNodes := childNodes el @ [LiveSpan []],
                            docSelection := RangeAt (length (childNodes el) + 1)\<rparr>,
                         length (childNodes el))
                    | NoRange \<Rightarrow>
                        (el\<lparr>childNodes := childNodes el @ [LiveSpan []]\<rparr>,
                         length (childNodes el))));
            el1 = fst placed;
            i = snd placed
        in Done (s\<lparr>liveNode := Some i,
                   currentEl := Some (el1\<lparr>childNodes := (childNodes el1)[i := LiveSpan txt]\<rparr>)\<rparr>)
      else
        let start = (case liveStartIdx s of
                       Some i \<Rightarrow> i
                     | None \<Rightarrow> (case selectionStart el of
                                  Some i \<Rightarrow> i | None \<Rightarrow> length (fieldValue el)));
            prev = (case liveStartIdx s of Some i \<Rightarrow> livePrevLen s | None \<Rightarrow> 0);
            caret = start + length txt
        in with_el (s\<lparr>liveStartIdx := Some start, livePrevLen := length txt\<rparr>)
             (setCaret
                (el\<lparr>fieldValue := take start (fieldValue el) @ txt
                                     @ drop (start + prev) (fieldValue el)\<rparr>)
                caret))"

text \<open>
  \<open>finalizeLiveText\<close>. In an editor with a live span, \<open>replaceWith\<close> does nothing when
  the span has left the document, and \<open>range.setStartAfter\<close> then throws on the text
  node, which has no parent. \<open>resetLiveState\<close> is the last statement on every path.
\<close>

definition finalizeLiveText :: "streamer \<Rightarrow> element \<Rightarrow> jsstring \<Rightarrow> streamer outcome" where
  "finalizeLiveText s el txt =
     (if isContentEditable el then
        (case liveNode s of
           None \<Rightarrow>
             and_then (with_el s (insertTextAtCursor el txt)) (\<lambda>s1. Done (resetLiveState s1))
         | Some i \<Rightarrow>
             if i < length (childNodes el) then
               Done (resetLiveState
                 (s\<lparr>currentEl := Some (el\<lparr>childNodes := (childNodes el)[i := TextNode txt],
                                           docSelection := RangeAt (i + 1)\<rparr>)\<rparr>))
             else Threw InvalidNodeTypeError s)
      else
        (case liveStartIdx s of
           None \<Rightarrow>
             and_then (with_el s (insertTextAtCursor el txt)) (\<lambda>s1. Done (resetLiveState s1))
         | Some i \<Rightarrow>
             and_then
               (with_el s
                  (setCaret
                     (el\<lparr>fieldValue := take i (fieldValue el) @ txt
                                          @ drop (i + livePrevLen s) (fieldValue el)\<rparr>)
                     (i + length txt)))
               (\<lambda>s1. Done (resetLiveState s1))))"

definition clearLiveText :: "streamer \<Rightarrow> streamer outcome" where
  "clearLiveText s =
     (case currentEl s of
        None \<Rightarrow> Done (resetLiveState s)
      | Some el \<Rightarrow>
          if isContentEditable el then
            (case liveNode s of
               Some i \<Rightarrow>
                 if i < length (childNodes el) then
                   Done (resetLiveState
                     (s\<lparr>currentEl :=
                          Some (el\<lparr>childNodes := take i (childNodes el)
                                                  @ drop (Suc i) (childNodes el),
                                  docSelection :=
                                    (case docSelection el of
                                       RangeAt k \<Rightarrow> RangeAt (if i < k then k - 1 else k)
                                     | NoRange \<Rightarrow> NoRange
                                     | RangeOutside \<Rightarrow> RangeOutside)\<rparr>)\<rparr>))
                 else Done (resetLiveState s)
             | None \<Rightarrow> Done (resetLiveState s))
          else
            (case liveStartIdx s of
               Some i \<Rightarrow>
                 and_then
                   (with_el s
                      (setCaret
                         (el\<lparr>fieldValue := take i (fieldValue el)
                                              @ drop (i + livePrevLen s) (fieldValue el)\<rparr>)
                         (length (take i (fieldValue el)))))
                   (\<lambda>s1. Done (resetLiveState s1))
             | None \<Rightarrow> Done (resetLiveState s)))"

definition cleanupAudioGraph :: "streamer \<Rightarrow> streamer" where
  "cleanupAudioGraph s = s\<lparr>audioCtx := None\<rparr>"

text \<open>
  \<open>cleanupStreaming\<close> is an \<open>async\<close> function without \<open>await\<close>: its body runs at the call,
  and an exception of \<open>clearLiveText\<close> rejects the promise it returns (\<open>Threw\<close>) with the
  last two assignments skipped. A caller that does not \<open>await\<close> the promise goes on
  from the state reached (\<open>state_of\<close>).
\<close>

definition cleanupStreaming :: "streamer \<Rightarrow> bool \<Rightarrow> streamer outcome" where
  "cleanupStreaming s err =
     (let s1 = (cleanupAudioGraph s)\<lparr>ws := None, isRecording := False\<rparr>
      in and_then (if err then clearLiveText s1 else Done s1)
           (\<lambda>s2. Done (s2\<lparr>lastPartial := [], lastPartialTs := 0\<rparr>)))"

text \<open>
  \<open>ws?.send(...)\<close>: the message leaves on an open socket; on a closing or closed
  socket it is discarded, and the exception of a connecting one is caught or aborts
  nothing the model keeps.
\<close>

definition wsSend :: "client_msg \<Rightarrow> streamer \<Rightarrow> streamer" where
  "wsSend m s = (if ws s = Some OPEN then s\<lparr>sent := sent s @ [m]\<rparr> else s)"

definition stopRecording_ws :: "streamer \<Rightarrow> streamer" where
  "stopRecording_ws s =
     (if \<not> isRecording s then s
      else cleanupAudioGraph
             (wsSend StopMsg
                (showToast (js ''Transcribing'' @ [8230]) ToastInfo 3200
                   (setBtnProcessing (s\<lparr>isRecording := False\<rparr>)))))"

text \<open>
  \<open>handleWsMessage\<close>, on a parsed message; \<open>now\<close> is \<open>Date.now()\<close>. The text of a
  \<open>partial\<close> or \<open>final\<close> is \<open>(msg.text || "").trim()\<close>. An exception of
  \<open>updateLiveText\<close>, \<open>finalizeLiveText\<close> or \<open>clearLiveText\<close> leaves the handler at once.
\<close>

definition handleWsMessage :: "streamer \<Rightarrow> int \<Rightarrow> server_msg \<Rightarrow> streamer outcome" where
  "handleWsMessage s now msg =
     (case msg of
        Ready \<Rightarrow> Done s
      | Started \<Rightarrow> Done s
      | Partial t \<Rightarrow>
          let txt = trim (case t of None \<Rightarrow> [] | Some x \<Rightarrow> x)
          in if txt = [] then Done s
             else if length txt < PARTIAL_MIN_CHARS then Done s
             else if txt = lastPartial s then Done s
             else if now - lastPartialTs s < PARTIAL_DEBOUNCE_MS then Done s
             else if lastPartial s \<noteq> [] \<and> startsWith (lastPartial s) txt
                     \<and> length txt < length (lastPartial s) then Done s
             else
               let s1 = s\<lparr>lastPartial := txt, lastPartialTs := now\<rparr>
               in (case currentEl s1 of
                     None \<Rightarrow> Done s1
                   | Some el \<Rightarrow> updateLiveText s1 el txt)
      | Final t \<Rightarrow>
          let txt = trim (case t of None \<Rightarrow> [] | Some x \<Rightarrow> x)
          in and_then
               (case currentEl s of
                  None \<Rightarrow> Done s
                | Some el \<Rightarrow> finalizeLiveText s el txt)
               (\<lambda>s1.
                  let s2 = (if txt \<noteq> [] then
                              showToast (js ''Transcribed '' @ [10003]) ToastSuccess 1500 s1
                            else showToast (js ''No speech detected.'') ToastInfo 1600 s1)
                  in Done ((resetBtn (state_of (cleanupStreaming s2 False)))
                             \<lparr>lastPartial := [], lastPartialTs := 0\<rparr>))
      | ServerError m \<Rightarrow>
          and_then (clearLiveText (showToast (js ''Error: '' @ m) ToastError 3200 s))
            (\<lambda>s1. Done (resetBtn (state_of (cleanupStreaming s1 True))))
      | OtherMsg \<Rightarrow> Done s)"

text \<open>
  The handlers of the socket. \<open>ws.onmessage\<close> runs on a text frame that parses as JSON
  (\<open>msg\<close> is the parsed value) and calls \<open>handleWsMessage\<close> inside \<open>try\<close>: the \<open>catch\<close> only
  logs, so the state an exception left is the state after the event. The handler tests
  neither \<open>ws\<close> nor \<open>isRecording\<close>. \<open>ws.onclose\<close> cleans up only while \<open>isRecording\<close>
  holds, and does not wait for \<open>cleanupStreaming\<close>.
\<close>

definition ws_onmessage :: "streamer \<Rightarrow> int \<Rightarrow> server_msg \<Rightarrow> streamer" where
  "ws_onmessage s now msg = state_of (handleWsMessage s now msg)"

definition ws_onclose :: "streamer \<Rightarrow> streamer" where
  "ws_onclose s =
     (let s0 = s\<lparr>ws := map_option (\<lambda>r. CLOSED) (ws s)\<rparr>
      in if isRecording s0 then
           resetBtn
             (state_of (cleanupStreaming (showToast (js ''Stopped.'') ToastInfo 1200 s0) True))
         else s0)"

text \<open>
  \<open>startRecording\<close> of the streaming script, on what the environment answers: no
  \<open>navigator.mediaDevices\<close>; \<open>getUserMedia\<close> throws (the toast depends on the name of
  the error); the socket cannot be created; or the socket opens with the AudioContext
  at the given rate, and \<open>ws.onopen\<close> sends the start message. The \<open>catch\<close> block awaits
  \<open>cleanupStreaming\<close>, so \<open>resetBtn\<close> is skipped when that promise is rejected.
\<close>

datatype media_error = NotAllowedError | NotFoundError | OtherError

datatype start_outcome =
  NoMediaDevices | MediaFailed media_error | SocketFailed | Connected real

definition start_failed :: "streamer \<Rightarrow> streamer" where
  "start_failed s =
     state_of (and_then (cleanupStreaming s True) (\<lambda>s1. Done (resetBtn s1)))"

definition startRecording_ws :: "streamer \<Rightarrow> start_outcome \<Rightarrow> streamer" where
  "startRecording_ws s out =
     (if out = NoMediaDevices then
        showToast (js ''Recording not supported in this browser.'') ToastError 2600 s
      else if currentEl s = None \<or> isRecording s then s
      else case out of
        Connected rate \<Rightarrow>
          showToast (js ''Recording'' @ [8230] @ js '' Click the button to stop.'')
            ToastInfo 1800
            (setBtnRecording
               (s\<lparr>audioCtx := Some rate, isRecording := True, ws := Some OPEN,
                   sent := sent s @ [StartMsg STREAM_SAMPLE_RATE (js ''en'')]\<rparr>))
      | MediaFailed NotAllowedError \<Rightarrow>
          start_failed (showToast (js ''Microphone permission denied.'') ToastError 2600 s)
      | MediaFailed NotFoundError \<Rightarrow>
          start_failed (showToast (js ''No microphone found.'') ToastError 2600 s)
      | _ \<Rightarrow>
          start_failed (showToast (js ''Failed to start recording.'') ToastError 2600 s))"

definition onaudioprocess_ws :: "streamer \<Rightarrow> real list \<Rightarrow> jserror + streamer" where
  "onaudioprocess_ws s input =
     (if ws s \<noteq> Some OPEN then Inr s
      else case audioCtx s of
        None \<Rightarrow> Inl TypeError
      | Some rate \<Rightarrow>
          let down = downsampleFloat32 input rate (real STREAM_SAMPLE_RATE)
          in if length down = 0 then Inr s
             else Inr (s\<lparr>sent := sent s @ [PcmChunk (floatTo16BitPCM (Int16Array down))]\<rparr>))"

text \<open>The MutationObserver, once the target has left the document (\<open>hideMic\<close> only
  touches the button, and not while recording).\<close>

definition elementRemoved :: "streamer \<Rightarrow> streamer" where
  "elementRemoved s = s\<lparr>currentEl := None\<rparr>"

definition streamer_init :: "element option \<Rightarrow> streamer" where
  "streamer_init el =
     \<lparr>isRecording = False, audioCtx = None, currentEl = el, micBtn = BtnIdle, toasts = [],
      ws = None, sent = [], liveStartIdx = None, livePrevLen = 0, liveNode = None,
      lastPartial = [], lastPartialTs = 0\<rparr>"

text \<open>
  The vocabulary of the claims about partial results. \<open>hypothesis_text\<close> is the text of
  a partial message as the handler reads it; \<open>passes_throttle\<close> states the five checks
  of the throttle on that text; \<open>live_text\<close> is the text the
  target shows as live text, if any; \<open>live_ok\<close> says that the live position the script
  remembers lies inside the target.
\<close>

definition hypothesis_text :: "jsstring option \<Rightarrow> jsstring" where
  "hypothesis_text t = trim (case t of None \<Rightarrow> [] | Some x \<Rightarrow> x)"

definition passes_throttle :: "jsstring \<Rightarrow> int \<Rightarrow> int \<Rightarrow> jsstring \<Rightarrow> bool" where
  "passes_throttle lastEmittedText lastEmitTimestamp now hyp =
     (hyp \<noteq> []
      \<and> 3 \<le> length hyp
      \<and> hyp \<noteq> lastEmittedText
      \<and> 250 \<le> now - lastEmitTimestamp
      \<and> \<not> (take (length hyp) lastEmittedText = hyp \<and> length hyp < length lastEmittedText))"

definition live_text :: "streamer \<Rightarrow> jsstring option" where
  "live_text s =
     (case currentEl s of
        None \<Rightarrow> None
      | Some el \<Rightarrow>
          if isContentEditable el \<or> isProseMirror el then
            (case liveNode s of
               None \<Rightarrow> None
             | Some i \<Rightarrow>
                 if i < length (childNodes el) then
                   (case childNodes el ! i of LiveSpan t \<Rightarrow> Some t | TextNode t \<Rightarrow> None)
                 else None)
          else
            (case liveStartIdx s of
               None \<Rightarrow> None
             | Some i \<Rightarrow> Some (take (livePrevLen s) (drop i (fieldValue el)))))"

definition live_ok :: "streamer \<Rightarrow> bool" where
  "live_ok s =
     (case currentEl s of
        None \<Rightarrow> True
      | Some el \<Rightarrow>
          if isContentEditable el \<or> isProseMirror el then
            (case liveNode s of None \<Rightarrow> True | Some i \<Rightarrow> i < length (childNodes el))
          else
            (case liveStartIdx s of
               Some i \<Rightarrow> i \<le> length (fieldValue el)
             | None \<Rightarrow> (case selectionStart el of
                          Some k \<Rightarrow> k \<le> length (fieldValue el) | None \<Rightarrow> True)))"

text \<open>
  A streaming session started on an empty text field; the same after the partial
  "hello wor" at time 1000; and that one after the user has stopped it.
\<close>

definition streaming_session :: streamer where
  "streaming_session = startRecording_ws (streamer_init (Some (plain_field []))) (Connected 48000)"

definition hello_wor_session :: streamer where
  "hello_wor_session = ws_onmessage streaming_session 1000 (Partial (Some (js ''hello wor'')))"

definition stopping_session :: streamer where
  "stopping_session = stopRecording_ws hello_wor_session"

text \<open>
  Sample inputs: a session started on an empty text field with the AudioContext at
  16 kHz, and three capture blocks (PCM \<open>[32, -32]\<close>, \<open>[327, -327]\<close> and silence).
\<close>

definition fresh_session :: recorder where
  "fresh_session = startRecording (recorder_init (Some (plain_field []))) 0 (Granted 16000)"

definition loud_block :: "real list" where
  "loud_block = [1 / 1000, - (1 / 1000)]"

definition louder_block :: "real list" where
  "louder_block = [1 / 100, - (1 / 100)]"

definition quiet_block :: "real list" where
  "quiet_block = [0, 0]"

text \<open>The sample session after six loud blocks, and after thirty silent ones.\<close>

definition confirmed_session :: recorder where
  "confirmed_session = feed fresh_session (Result None) (replicate 6 loud_block)"

definition silent_session :: recorder where
  "silent_session = feed fresh_session (Result None) (replicate 30 quiet_block)"

text \<open>A sample run: a click at time 0 that starts a session, and a block 10 s later.\<close>

definition sample_run :: "(int \<times> event \<times> response) list" where
  "sample_run =
     [(0, MicClick (Granted 16000), Result None),
      (10000, AudioProcess loud_block, Result None)]"


section \<open>Properties of the resampler\<close>

declare downsample_loop.simps [simp del]

text \<open>Rounding to the nearest double: bounds, evaluation and monotonicity.\<close>

lemma rhe_bounds: "of_int \<lfloor>x\<rfloor> \<le> (of_int (round_half_even x) :: real)" "round_half_even x \<le> \<lceil>x\<rceil>"
   apply (simp add: round_half_even_def Let_def)
  apply (simp add: round_half_even_def Let_def)
  apply (auto simp add: ceiling_altdef)
  done

lemma rhe_mono: "x \<le> y \<Longrightarrow> round_half_even x \<le> round_half_even y"
proof -
  assume le: "x \<le> y"
  have fxy: "\<lfloor>x\<rfloor> \<le> \<lfloor>y\<rfloor>" using le by (rule floor_mono)
  show ?thesis
  proof (cases "\<lfloor>x\<rfloor> = \<lfloor>y\<rfloor>")
    case True
    then show ?thesis using le by (auto simp add: round_half_even_def Let_def)
  next
    case False
    then have "\<lfloor>x\<rfloor> + 1 \<le> \<lfloor>y\<rfloor>" using fxy by simp
    moreover have "round_half_even x \<le> \<lfloor>x\<rfloor> + 1" by (simp add: round_half_even_def Let_def)
    moreover have "\<lfloor>y\<rfloor> \<le> round_half_even y" by (simp add: round_half_even_def Let_def)
    ultimately show ?thesis by linarith
  qed
qed

lemma rhe_int: "round_half_even (of_int k) = k"
  by (simp add: round_half_even_def)

lemma fl_scaled:
  assumes "0 < x" and "2 powr (of_int e + 52) \<le> x" and "x < 2 powr (of_int e + 53)"
  shows "fl x = of_int (round_half_even (x / 2 powr of_int e)) * 2 powr of_int e"
proof -
  have "\<lfloor>log 2 x\<rfloor> = e + 52"
    using assms by (subst floor_log_eq_powr_iff) (simp_all add: add.commute add.assoc)
  then show ?thesis using assms(1) by (simp add: fl_def)
qed

lemma fl_eval:
  assumes "0 < x" and "2 ^ 52 \<le> x * 2 ^ n" and "x * 2 ^ n < 2 ^ 53"
  shows "fl x = of_int (round_half_even (x * 2 ^ n)) / 2 ^ n"
proof -
  have p: "2 powr (of_int (- int n)) = 1 / (2::real) ^ n"
    by (simp add: powr_minus powr_realpow inverse_eq_divide)
  have q52: "(2::real) powr 52 = 2 ^ 52" and q53: "(2::real) powr 53 = 2 ^ 53"
    by (simp_all only: powr_numeral zero_less_numeral)
  have "2 powr (of_int (- int n) + 52) = (2::real) powr (of_int (- int n)) * 2 powr 52"
    by (rule powr_add)
  also have "\<dots> = 2 ^ 52 / 2 ^ n" by (simp only: p q52) simp
  also have "\<dots> \<le> x" using assms(2) by (simp add: field_simps)
  finally have a: "2 powr (of_int (- int n) + 52) \<le> x" .
  have "x < 2 ^ 53 / 2 ^ n" using assms(3) by (simp add: field_simps)
  also have "\<dots> = (2::real) powr (of_int (- int n)) * 2 powr 53" by (simp only: p q53) simp
  also have "\<dots> = 2 powr (of_int (- int n) + 53)" by (rule powr_add [symmetric])
  finally have b: "x < 2 powr (of_int (- int n) + 53)" .
  have "fl x = of_int (round_half_even (x / 2 powr of_int (- int n))) * 2 powr of_int (- int n)"
    using fl_scaled [OF assms(1) a b] .
  then show ?thesis by (simp only: p) simp
qed

lemma fl_1: "fl 1 = 1"
  using fl_eval [of 1 52] by (simp add: round_half_even_def)

lemma fl_3: "fl 3 = 3"
  using fl_eval [of 3 51] by (simp add: round_half_even_def)

lemma fl_6: "fl 6 = 6"
  using fl_eval [of 6 50] by (simp add: round_half_even_def)

lemma r22: "fl (35200 / 16000) = 4953959590107546 / 2 ^ 51"
  using fl_eval [of "35200 / 16000" 51] by (simp add: round_half_even_def)

lemma r33: "fl (33 / fl (35200 / 16000)) = 8444249301319679 / 2 ^ 49"
  unfolding r22
  using fl_eval [of "33 / (4953959590107546 / 2 ^ 51)" 49] by (simp add: round_half_even_def)

lemma fl_nonneg: "0 \<le> x \<Longrightarrow> 0 \<le> fl x"
proof -
  assume "0 \<le> x"
  have "0 \<le> round_half_even y" if "0 \<le> y" for y
    using that rhe_mono [of 0 y] by (simp add: round_half_even_def)
  then show ?thesis using \<open>0 \<le> x\<close> by (simp add: fl_def Let_def)
qed

lemma fl_binade:
  assumes "0 < x"
  defines "e \<equiv> \<lfloor>log 2 x\<rfloor> - 52"
  shows "fl x = of_int (round_half_even (x / 2 powr of_int e)) * 2 powr of_int e"
    and "2 ^ 52 \<le> x / 2 powr of_int e" and "x / 2 powr of_int e < 2 ^ 53"
proof -
  have l: "\<lfloor>log 2 x\<rfloor> = e + 52" by (simp add: e_def)
  then have b: "2 powr of_int (e + 52) \<le> x \<and> x < 2 powr (of_int (e + 52) + 1)"
    using assms(1) floor_log_eq_powr_iff [of x 2 "e + 52"] by simp
  show "fl x = of_int (round_half_even (x / 2 powr of_int e)) * 2 powr of_int e"
    using assms(1) by (simp add: fl_def e_def)
  have p: "0 < (2::real) powr of_int e" by simp
  have q52: "(2::real) powr 52 = 2 ^ 52" and q53: "(2::real) powr 53 = 2 ^ 53"
    by (simp_all only: powr_numeral zero_less_numeral)
  have "2 powr of_int (e + 52) = (2::real) powr of_int e * 2 powr 52"
    by (simp add: powr_add)
  then have "2 powr of_int e * 2 ^ 52 \<le> x" using b q52 by simp
  then show "2 ^ 52 \<le> x / 2 powr of_int e"
    using p by (simp add: field_simps)
  have "of_int (e + 52) + 1 = (of_int e :: real) + 53" by simp
  then have "2 powr (of_int (e + 52) + 1) = (2::real) powr of_int e * 2 powr 53"
    by (simp only: powr_add)
  then have "x < 2 powr of_int e * 2 ^ 53" using b q53 by simp
  then show "x / 2 powr of_int e < 2 ^ 53"
    using p by (simp add: field_simps)
qed

lemma fl_mono:
  assumes "0 \<le> x" and "x \<le> y"
  shows "fl x \<le> fl y"
proof (cases "x = 0")
  case True
  then show ?thesis using fl_nonneg [of y] assms by (simp add: fl_def)
next
  case False
  then have x0: "0 < x" and y0: "0 < y" using assms by simp_all
  define ex where "ex = \<lfloor>log 2 x\<rfloor> - 52"
  define ey where "ey = \<lfloor>log 2 y\<rfloor> - 52"
  note bx = fl_binade [OF x0, folded ex_def]
  note wy = fl_binade [OF y0, folded ey_def]
  have le: "ex \<le> ey"
    unfolding ex_def ey_def using x0 assms(2) by (simp add: floor_mono)
  show ?thesis
  proof (cases "ex = ey")
    case True
    have "x / 2 powr of_int ey \<le> y / 2 powr of_int ey"
      using assms(2) by (simp add: divide_right_mono)
    then have "round_half_even (x / 2 powr of_int ey) \<le> round_half_even (y / 2 powr of_int ey)"
      by (rule rhe_mono)
    then show ?thesis
      unfolding bx(1) wy(1) True by (simp add: mult_right_mono)
  next
    case False
    then have lt: "ex + 1 \<le> ey" using le by simp
    have "round_half_even (x / 2 powr of_int ex) \<le> \<lceil>x / 2 powr of_int ex\<rceil>"
      by (rule rhe_bounds)
    also have "\<dots> \<le> 2 ^ 53"
      using bx(3) by (simp add: ceiling_le_iff)
    finally have ux: "(of_int (round_half_even (x / 2 powr of_int ex)) :: real) \<le> 2 ^ 53"
      by (metis of_int_le_iff of_int_numeral of_int_power)
    have "(2::real) ^ 52 \<le> of_int \<lfloor>y / 2 powr of_int ey\<rfloor>"
      using wy(2) by (metis le_floor_iff of_int_le_iff of_int_numeral of_int_power)
    also have "\<dots> \<le> of_int (round_half_even (y / 2 powr of_int ey))"
      by (rule rhe_bounds)
    finally have ly: "(2::real) ^ 52 \<le> of_int (round_half_even (y / 2 powr of_int ey))" .
    have "fl x \<le> 2 ^ 53 * 2 powr of_int ex"
      unfolding bx(1) using ux by (simp add: mult_right_mono)
    also have "\<dots> = 2 ^ 52 * 2 powr of_int (ex + 1)"
      by (simp add: powr_add)
    also have "\<dots> \<le> 2 ^ 52 * 2 powr of_int ey"
      using lt by (simp add: powr_mono)
    also have "\<dots> \<le> fl y"
      unfolding wy(1) using ly by (simp add: mult_right_mono)
    finally show ?thesis .
  qed
qed

lemma downsample_loop_length:
  "length (downsample_loop b r n k ob res) = length res"
  by (induction b r n k ob res rule: downsample_loop.induct)
     (simp add: downsample_loop.simps)

lemma window_sample_cong:
  assumes "length b1 = length b2" and "\<forall>i<m. b1 ! i = b2 ! i" and "nxt \<le> m"
  shows "window_sample b1 ob nxt = window_sample b2 ob nxt"
proof -
  have "map (\<lambda>i. b1 ! i) [ob ..< min nxt (length b1)] = map (\<lambda>i. b2 ! i) [ob ..< min nxt (length b2)]"
    using assms by auto
  then show ?thesis
    unfolding window_sample_def by (simp only:)
qed

lemma downsample_loop_cong:
  assumes "length b1 = length b2" and "\<forall>i<m. b1 ! i = b2 ! i"
    and "\<forall>j. j \<le> n \<longrightarrow> nat \<lfloor>fl (real j * r)\<rfloor> \<le> m"
  shows "downsample_loop b1 r n k ob res = downsample_loop b2 r n k ob res"
  using assms
proof (induction b1 r n k ob res rule: downsample_loop.induct)
  case (1 buffer ratio newLen offsetResult offsetBuffer result)
  show ?case
  proof (cases "offsetResult < newLen")
    case True
    then have le: "nat \<lfloor>fl (real (offsetResult + 1) * ratio)\<rfloor> \<le> m"
      using "1.prems"(3) by (metis Suc_eq_plus1 Suc_leI)
    have w: "window_sample buffer offsetBuffer (nat \<lfloor>fl (real (offsetResult + 1) * ratio)\<rfloor>)
           = window_sample b2 offsetBuffer (nat \<lfloor>fl (real (offsetResult + 1) * ratio)\<rfloor>)"
      using window_sample_cong [OF "1.prems"(1) "1.prems"(2) le] .
    show ?thesis
      using True "1.IH" [OF True "1.prems"] w
      by (subst downsample_loop.simps, subst (2) downsample_loop.simps) simp
  next
    case False
    then show ?thesis
      by (subst downsample_loop.simps, subst (2) downsample_loop.simps) simp
  qed
qed

lemma floor_mono_ratio:
  assumes "0 \<le> (r::real)" "j \<le> (n::nat)"
  shows "nat \<lfloor>fl (real j * r)\<rfloor> \<le> nat \<lfloor>fl (real n * r)\<rfloor>"
proof -
  have "real j * r \<le> real n * r" using assms by (simp add: mult_right_mono)
  moreover have "0 \<le> real j * r" using assms by simp
  ultimately have "fl (real j * r) \<le> fl (real n * r)" by (rule fl_mono [rotated])
  then show ?thesis by (simp add: floor_mono nat_mono)
qed

lemma ratio_22: "fl (35200 / 16000) = 4953959590107546 / 2 ^ 51"
  using fl_eval [of "35200 / 16000" 51] by (simp add: round_half_even_def)

lemma quotient_33: "fl (33 / fl (35200 / 16000)) = 8444249301319679 / 2 ^ 49"
  unfolding ratio_22
  using fl_eval [of "33 / (4953959590107546 / 2 ^ 51)" 49] by (simp add: round_half_even_def)

lemma quotient_7_3: "fl (7 / 3) = 5254199565265579 / 2 ^ 51"
  using fl_eval [of "7 / 3" 51] by (simp add: round_half_even_def)

text \<open>
  Claim C4, as the code has it. Downsampling a block of length \<open>L\<close> from \<open>Rin\<close> to
  \<open>Rout < Rin\<close> returns \<open>floor (L / (Rin / Rout))\<close> samples where each of the two
  divisions is rounded to a double, and the samples past the last window (from index
  \<open>floor (newLen * ratio)\<close> on, the product rounded to a double) are dropped: changing
  them leaves the output as it is. When the two rates are equal, the block keeps its
  \<open>L\<close> samples.
\<close>

theorem downsample_length:
  "length (downsampleFloat32 buffer inRate inRate) = length buffer
   \<and> (0 < outRate \<and> outRate < inRate
      \<longrightarrow> length (downsampleFloat32 buffer inRate outRate)
            = nat \<lfloor>fl (real (length buffer) / fl (inRate / outRate))\<rfloor>
          \<and> (\<forall>buffer'. length buffer' = length buffer
                \<and> take (nat \<lfloor>fl (real (nat \<lfloor>fl (real (length buffer) / fl (inRate / outRate))\<rfloor>)
                                     * fl (inRate / outRate))\<rfloor>) buffer'
                  = take (nat \<lfloor>fl (real (nat \<lfloor>fl (real (length buffer) / fl (inRate / outRate))\<rfloor>)
                                       * fl (inRate / outRate))\<rfloor>) buffer
               \<longrightarrow> downsampleFloat32 buffer' inRate outRate
                   = downsampleFloat32 buffer inRate outRate))"
proof -
  have eq: "length (downsampleFloat32 buffer inRate inRate) = length buffer"
    by (simp add: downsampleFloat32_def)
  have lt: "length (downsampleFloat32 buffer inRate outRate)
            = nat \<lfloor>fl (real (length buffer) / fl (inRate / outRate))\<rfloor>
          \<and> (\<forall>buffer'. length buffer' = length buffer
                \<and> take (nat \<lfloor>fl (real (nat \<lfloor>fl (real (length buffer) / fl (inRate / outRate))\<rfloor>)
                                     * fl (inRate / outRate))\<rfloor>) buffer'
                  = take (nat \<lfloor>fl (real (nat \<lfloor>fl (real (length buffer) / fl (inRate / outRate))\<rfloor>)
                                       * fl (inRate / outRate))\<rfloor>) buffer
               \<longrightarrow> downsampleFloat32 buffer' inRate outRate
                   = downsampleFloat32 buffer inRate outRate)"
    if h: "0 < outRate \<and> outRate < inRate"
  proof -
    define ratio where "ratio = fl (inRate / outRate)"
    define newLen where "newLen = nat \<lfloor>fl (real (length buffer) / ratio)\<rfloor>"
    define m where "m = nat \<lfloor>fl (real newLen * ratio)\<rfloor>"
    have ne: "outRate \<noteq> inRate" "\<not> inRate < outRate" using h by simp_all
    have r0: "0 \<le> ratio" unfolding ratio_def using h by (intro fl_nonneg) simp
    have len: "length (downsampleFloat32 buffer inRate outRate) = newLen"
      using ne
      by (simp add: downsampleFloat32_def Let_def downsample_loop_length ratio_def newLen_def)
    have same: "downsampleFloat32 b' inRate outRate = downsampleFloat32 buffer inRate outRate"
      if l: "length b' = length buffer" and t: "take m b' = take m buffer" for b'
    proof -
      have nth: "\<forall>i<m. b' ! i = buffer ! i"
        using t by (metis nth_take)
      have bound: "\<forall>j. j \<le> newLen \<longrightarrow> nat \<lfloor>fl (real j * ratio)\<rfloor> \<le> m"
        unfolding m_def using floor_mono_ratio [OF r0] by blast
      show ?thesis
        using ne l downsample_loop_cong [OF l nth bound]
        by (simp add: downsampleFloat32_def Let_def ratio_def [symmetric] newLen_def [symmetric])
    qed
    show ?thesis
      using len same unfolding m_def newLen_def ratio_def by blast
  qed
  show ?thesis using eq lt by blast
qed

theorem downsample_length_witness:
  "length (downsampleFloat32 [- 1, - 1, - 1, 1 / 2, 1 / 4, 1 / 4, 1] 48000 16000) = 2
   \<and> downsampleFloat32 [- 1, - 1, - 1, 1 / 2, 1 / 4, 1 / 4, 0] 48000 16000
     = downsampleFloat32 [- 1, - 1, - 1, 1 / 2, 1 / 4, 1 / 4, 1] 48000 16000"
proof -
  let ?b = "[- 1, - 1, - 1, 1 / 2, 1 / 4, 1 / 4, 1] :: real list"
  let ?b' = "[- 1, - 1, - 1, 1 / 2, 1 / 4, 1 / 4, 0] :: real list"
  have h: "(0::real) < 16000 \<and> (16000::real) < 48000" by simp
  note t = downsample_length [of ?b 48000 16000, THEN conjunct2, THEN mp, OF h]
  have r: "fl (48000 / 16000) = 3" using fl_3 by simp
  have n: "nat \<lfloor>fl (real (length ?b) / fl (48000 / 16000))\<rfloor> = 2"
    unfolding r by (simp add: quotient_7_3)
  have m: "nat \<lfloor>fl (real (2::nat) * fl (48000 / 16000))\<rfloor> = 6"
    unfolding r using fl_6 by simp
  have len: "length (downsampleFloat32 ?b 48000 16000) = 2"
    using t [THEN conjunct1] n by (simp only:)
  have pre: "length ?b' = length ?b
      \<and> take (nat \<lfloor>fl (real (nat \<lfloor>fl (real (length ?b) / fl (48000 / 16000))\<rfloor>)
                         * fl (48000 / 16000))\<rfloor>) ?b'
        = take (nat \<lfloor>fl (real (nat \<lfloor>fl (real (length ?b) / fl (48000 / 16000))\<rfloor>)
                           * fl (48000 / 16000))\<rfloor>) ?b"
    unfolding n m by simp
  have same: "downsampleFloat32 ?b' 48000 16000 = downsampleFloat32 ?b 48000 16000"
    using t [THEN conjunct2, THEN spec, of ?b', THEN mp, OF pre] .
  show ?thesis using len same by (simp only:)
qed

text \<open>
  The counterexample to claim C4 as it is worded: 33 samples at 35200 Hz brought to
  16000 Hz. The exact quotient \<open>33 / (35200 / 16000)\<close> is 15; the program divides in
  doubles, where the ratio is just above 2.2 and the quotient just below 15, and
  returns 14 samples.
\<close>

theorem downsample_length_not_exact_floor:
  "length (downsampleFloat32 (replicate 33 0) 35200 16000) = 14
   \<and> nat \<lfloor>(33::real) / (35200 / 16000)\<rfloor> = 15"
proof -
  have "length (downsampleFloat32 (replicate 33 0) 35200 16000)
        = nat \<lfloor>fl (33 / fl (35200 / 16000))\<rfloor>"
    by (simp add: downsampleFloat32_def Let_def downsample_loop_length)
  also have "\<dots> = 14" unfolding quotient_33 by simp
  finally show ?thesis by simp
qed

text \<open>
  Claim C5. The claim scales a negative window average by 32768. The decimation loop
  multiplies every clamped average by \<open>0x7fff\<close>, whatever its sign: a window of
  \<open>-1.0\<close> samples comes out as \<open>-32767\<close>, while \<open>floatTo16BitPCM\<close>, the path taken when
  no decimation is needed, maps the same sample to \<open>-32768\<close>.
\<close>

theorem downsample_negative_average_scaled_by_32767:
  "downsampleFloat32 [- 1, - 1, - 1] 48000 16000 = [- 32767]
   \<and> floatTo16BitPCM (Float32Array [- 1]) = [- 32768]
   \<and> floatTo16BitPCM (Int16Array (downsampleFloat32 [- 1, - 1, - 1] 48000 16000)) = [- 32767]"
proof -
  have d: "downsampleFloat32 [- 1, - 1, - 1] 48000 16000 = [- 32767]"
    by (simp add: downsampleFloat32_def downsample_loop.simps window_sample_def toInt16_def Let_def
          fl_1 fl_3)
  have f: "floatTo16BitPCM (Float32Array [- 1]) = [- 32768]"
    by (simp add: toInt16_def)
  show ?thesis
    by (simp only: d f floatTo16BitPCM.simps(1))
qed


section \<open>Properties of the batch recorder\<close>

lemma process_block_no_context:
  "audioCtx s = None \<Longrightarrow> process_block s resp b = s"
  by (simp add: process_block_def onaudioprocess_def)

lemma listening_distinct:
  "js ''Transcribing'' @ [8230] \<noteq> js ''Listening'' @ [8230]"
  "js ''No audio recorded.'' \<noteq> js ''Listening'' @ [8230]"
  "js ''Error: '' @ m \<noteq> js ''Listening'' @ [8230]"
  "js ''Transcribed '' @ [10003] \<noteq> js ''Listening'' @ [8230]"
  "js ''No speech detected.'' \<noteq> js ''Listening'' @ [8230]"
  by (simp_all add: js_def)

lemma stopRecording_fields:
  "isRecording (stopRecording s resp) = False"
  "isRecording s \<Longrightarrow> audioCtx (stopRecording s resp) = None"
  "vadHistory (stopRecording s resp) = vadHistory s"
  "hasDetectedVoice (stopRecording s resp) = hasDetectedVoice s"
  "voiceDetectedFrames (stopRecording s resp) = voiceDetectedFrames s"
  "silenceFrames (stopRecording s resp) = silenceFrames s"
  "logs (stopRecording s resp) = logs s"
  "recordingStartTime (stopRecording s resp) = recordingStartTime s"
  by (simp_all add: stopRecording_def cleanupRecording_def stop_finally_def showToast_def
        setBtnProcessing_def resetBtn_def Let_def
        split: option.splits response.splits outcome.splits)

lemma stopRecording_onsets:
  "onsets (stopRecording s resp) = onsets s"
  by (simp add: onsets_def stopRecording_def cleanupRecording_def stop_finally_def showToast_def
        setBtnProcessing_def resetBtn_def Let_def js_def
        split: option.splits response.splits outcome.splits)

lemma candidate_step:
  assumes "audioCtx s = Some rate" and "voice_candidate s b"
  shows "audioCtx (process_block s resp b) = Some rate"
    and "isRecording (process_block s resp b) = isRecording s"
    and "voiceDetectedFrames (process_block s resp b) = voiceDetectedFrames s + 1"
    and "silenceFrames (process_block s resp b) = 0"
    and "hasDetectedVoice (process_block s resp b)
          = (hasDetectedVoice s \<or> 5 < voiceDetectedFrames s + 1)"
    and "onsets (process_block s resp b)
          = onsets s + (if \<not> hasDetectedVoice s \<and> 5 < voiceDetectedFrames s + 1 then 1 else 0)"
    and "logs (process_block s resp b) = logs s"
  using assms
  by (auto simp add: process_block_def onaudioprocess_def voice_candidate_def Let_def
        showToast_def onsets_def)

lemma quiet_step:
  assumes "audioCtx s = Some rate" and "\<not> voice_candidate s b"
    and "\<not> (hasDetectedVoice s \<and> 45 \<le> silenceFrames s)"
  shows "audioCtx (process_block s resp b) = Some rate"
    and "isRecording (process_block s resp b) = isRecording s"
    and "voiceDetectedFrames (process_block s resp b) = voiceDetectedFrames s - 1"
    and "silenceFrames (process_block s resp b)
          = (if hasDetectedVoice s then silenceFrames s + 1 else silenceFrames s)"
    and "hasDetectedVoice (process_block s resp b) = hasDetectedVoice s"
    and "onsets (process_block s resp b) = onsets s"
    and "logs (process_block s resp b) = logs s"
  using assms
  by (auto simp add: process_block_def onaudioprocess_def voice_candidate_def Let_def
        showToast_def onsets_def)

lemma quiet_stop:
  assumes "audioCtx s = Some rate" and "\<not> voice_candidate s b"
    and "hasDetectedVoice s" and "45 \<le> silenceFrames s"
  shows "isRecording (process_block s resp b) = False"
    and "isRecording s \<Longrightarrow> audioCtx (process_block s resp b) = None"
    and "hasDetectedVoice (process_block s resp b)"
    and "silenceFrames (process_block s resp b) = silenceFrames s + 1"
    and "onsets (process_block s resp b) = onsets s"
    and "logs (process_block s resp b) = logs s @ [''Stopping due to silence'']"
  using assms
       apply (auto simp add: process_block_def onaudioprocess_def voice_candidate_def Let_def
        stopRecording_fields stopRecording_onsets)
     apply (simp_all add: onsets_def)
  done


lemma feed_Nil: "feed s resp [] = s"
  by (simp add: feed_def)

lemma feed_Cons: "feed s resp (b # bs) = feed (process_block s resp b) resp bs"
  by (simp add: feed_def)

lemma feed_append: "feed s resp (xs @ ys) = feed (feed s resp xs) resp ys"
  by (simp add: feed_def)

lemma classify_append:
  "classify s resp (xs @ ys) = classify s resp xs @ classify (feed s resp xs) resp ys"
  by (induction xs arbitrary: s) (simp_all add: feed_Nil feed_Cons)

lemma length_classify: "length (classify s resp bs) = length bs"
  by (induction bs arbitrary: s) simp_all

lemma classify_take: "classify s resp (take k bs) = take k (classify s resp bs)"
  by (induction bs arbitrary: k s) (auto simp add: take_Cons split: nat.splits)

lemma feed_take_Suc:
  "k < length bs \<Longrightarrow> feed s resp (take (Suc k) bs) = process_block (feed s resp (take k bs)) resp (bs ! k)"
  by (simp add: take_Suc_conv_app_nth feed_append feed_Cons feed_Nil)

lemma drop_last1: "length bs = Suc n \<Longrightarrow> drop n bs = [bs ! n]"
  by (simp add: Cons_nth_drop_Suc [symmetric])

lemma candidates_run:
  assumes "audioCtx s = Some rate" and "classify s resp bs = replicate (length bs) True"
    and "hasDetectedVoice s \<or> voiceDetectedFrames s \<le> 5"
  shows "audioCtx (feed s resp bs) = Some rate
       \<and> isRecording (feed s resp bs) = isRecording s
       \<and> voiceDetectedFrames (feed s resp bs) = voiceDetectedFrames s + length bs
       \<and> hasDetectedVoice (feed s resp bs)
            = (hasDetectedVoice s \<or> 5 < voiceDetectedFrames s + length bs)
       \<and> onsets (feed s resp bs)
            = onsets s + (if \<not> hasDetectedVoice s \<and> 5 < voiceDetectedFrames s + length bs
                          then 1 else 0)
       \<and> logs (feed s resp bs) = logs s"
  using assms
proof (induction bs arbitrary: s)
  case Nil
  then show ?case by (auto simp add: feed_Nil)
next
  case (Cons b bs)
  from Cons.prems(2) have c: "voice_candidate s b"
    and r: "classify (process_block s resp b) resp bs = replicate (length bs) True"
    by simp_all
  note st = candidate_step [OF Cons.prems(1) c, of resp]
  have "hasDetectedVoice (process_block s resp b) \<or> voiceDetectedFrames (process_block s resp b) \<le> 5"
    using st(3,5) by auto
  note ih = Cons.IH [OF st(1) r this]
  show ?case
    using ih st Cons.prems(3) by (auto simp add: feed_Cons)
qed

lemma quiet_run:
  assumes "audioCtx s = Some rate" and "classify s resp bs = replicate (length bs) False"
    and "hasDetectedVoice s" and "silenceFrames s + length bs \<le> 45"
  shows "audioCtx (feed s resp bs) = Some rate
       \<and> isRecording (feed s resp bs) = isRecording s
       \<and> silenceFrames (feed s resp bs) = silenceFrames s + length bs
       \<and> hasDetectedVoice (feed s resp bs)
       \<and> onsets (feed s resp bs) = onsets s
       \<and> logs (feed s resp bs) = logs s"
  using assms
proof (induction bs arbitrary: s)
  case Nil
  then show ?case by (simp add: feed_Nil)
next
  case (Cons b bs)
  from Cons.prems(2) have c: "\<not> voice_candidate s b"
    and r: "classify (process_block s resp b) resp bs = replicate (length bs) False"
    by simp_all
  have n: "\<not> (hasDetectedVoice s \<and> 45 \<le> silenceFrames s)"
    using Cons.prems(4) by simp
  note st = quiet_step [OF Cons.prems(1) c n, of resp]
  have "silenceFrames (process_block s resp b) + length bs \<le> 45"
    using st(4) Cons.prems(3,4) by simp
  note ih = Cons.IH [OF st(1) r _ this]
  show ?case
    using ih st Cons.prems(3) by (auto simp add: feed_Cons)
qed

lemma vadHistory_step:
  "length (vadHistory s) \<le> 30 \<Longrightarrow> length (vadHistory (process_block s resp b)) \<le> 30"
  by (auto simp add: process_block_def onaudioprocess_def Let_def stopRecording_fields
        showToast_def split: option.splits)


lemma startRecording_fresh:
  assumes "currentEl s0 \<noteq> None" and "\<not> isRecording s0"
    and "s = startRecording s0 now (Granted rate)"
  shows "audioCtx s = Some rate" and "isRecording s" and "\<not> hasDetectedVoice s"
    and "voiceDetectedFrames s = 0" and "silenceFrames s = 0" and "vadHistory s = []"
    and "noiseFloor s = 2 / 1000" and "recordedChunks s = []"
    and "maxRecordingTimer s = Some (now + 30000)" and "recordingStartTime s = now"
    and "timeouts s = timeouts s0 @ [now + 30000]"
  using assms
  by (auto simp add: startRecording_def showToast_def setBtnRecording_def)

lemma candidate_prefix:
  assumes "classify s resp bs = replicate n True @ rest" and "k \<le> n"
  shows "classify s resp (take k bs) = replicate (length (take k bs)) True"
proof -
  have "length bs = n + length rest"
    using assms(1) length_classify [of s resp bs] by simp
  then have l: "length (take k bs) = k" using assms(2) by simp
  have "classify s resp (take k bs) = take k (replicate n True @ rest)"
    by (simp add: classify_take assms(1))
  also have "\<dots> = replicate k True" using assms(2) by (simp add: min_def)
  finally show ?thesis using l by simp
qed

lemma fresh_candidates:
  assumes "audioCtx s = Some rate" and "\<not> hasDetectedVoice s" and "voiceDetectedFrames s = 0"
    and "classify s resp bs = replicate n True @ rest" and "k \<le> n"
  shows "audioCtx (feed s resp (take k bs)) = Some rate"
    and "hasDetectedVoice (feed s resp (take k bs)) = (5 < k)"
    and "onsets (feed s resp (take k bs)) = onsets s + (if 5 < k then 1 else 0)"
proof -
  have "length bs = n + length rest"
    using assms(4) length_classify [of s resp bs] by simp
  then have kl: "k \<le> length bs" using assms(5) by simp
  then have l: "length (take k bs) = k" by simp
  have inv: "hasDetectedVoice s \<or> voiceDetectedFrames s \<le> 5" using assms(3) by simp
  note r = candidates_run [OF assms(1) candidate_prefix [OF assms(4,5)] inv, unfolded l]
  show "audioCtx (feed s resp (take k bs)) = Some rate" using r by simp
  show "hasDetectedVoice (feed s resp (take k bs)) = (5 < k)"
    using r assms(2,3) by simp
  show "onsets (feed s resp (take k bs)) = onsets s + (if 5 < k then 1 else 0)"
    using r assms(2,3) by simp
qed

text \<open>
  Claim C2. From the state \<open>startRecording\<close> leaves, four voice-candidate blocks and one
  block that is not a candidate never set \<open>hasDetectedVoice\<close>; six candidate blocks in a
  row set it at the sixth block and not before, with one onset toast; a seventh
  candidate block adds no second onset toast.
\<close>

theorem vad_onset_hysteresis:
  assumes "currentEl s0 \<noteq> None" and "\<not> isRecording s0"
    and "s = startRecording s0 now (Granted rate)"
  shows "(classify s resp bs = [True, True, True, True, False]
            \<longrightarrow> (\<forall>k \<le> 5. \<not> hasDetectedVoice (feed s resp (take k bs))))
       \<and> (classify s resp bs = replicate 6 True
            \<longrightarrow> (\<forall>k < 6. \<not> hasDetectedVoice (feed s resp (take k bs)))
                \<and> hasDetectedVoice (feed s resp bs)
                \<and> onsets (feed s resp bs) = onsets s + 1)
       \<and> (classify s resp bs = replicate 7 True
            \<longrightarrow> hasDetectedVoice (feed s resp (take 6 bs))
                \<and> onsets (feed s resp (take 6 bs)) = onsets s + 1
                \<and> hasDetectedVoice (feed s resp bs)
                \<and> onsets (feed s resp bs) = onsets s + 1)"
proof -
  note f = startRecording_fresh [OF assms]
  have one: "\<forall>k \<le> 5. \<not> hasDetectedVoice (feed s resp (take k bs))"
    if c: "classify s resp bs = [True, True, True, True, False]"
  proof (intro allI impI)
    fix k :: nat assume k: "k \<le> 5"
    have len: "length bs = 5" using c length_classify [of s resp bs] by simp
    have c': "classify s resp bs = replicate 4 True @ [False]"
      using c by (simp add: numeral_eq_Suc)
    show "\<not> hasDetectedVoice (feed s resp (take k bs))"
    proof (cases "k \<le> 4")
      case True
      then show ?thesis
        using fresh_candidates(2) [OF f(1) f(3) f(4) c' True] by simp
    next
      case False
      then have k5: "k = 5" using k by simp
      let ?s4 = "feed s resp (take 4 bs)"
      have ctx: "audioCtx ?s4 = Some rate"
        using fresh_candidates(1) [OF f(1) f(3) f(4) c'] by simp
      have nv: "\<not> hasDetectedVoice ?s4"
        using fresh_candidates(2) [OF f(1) f(3) f(4) c', of 4] by simp
      have "classify s resp (take 4 bs @ drop 4 bs) = [True, True, True, True, False]"
        using c by simp
      then have "classify ?s4 resp (drop 4 bs) = [False]"
        unfolding classify_append using candidate_prefix [OF c', of 4] len
        by (simp add: numeral_eq_Suc)
      moreover have "drop 4 bs = [bs ! 4]"
        using len drop_last1 [of bs 4] by simp
      ultimately have q: "\<not> voice_candidate ?s4 (bs ! 4)" by simp
      have "feed s resp (take 5 bs) = process_block ?s4 resp (bs ! 4)"
        using feed_take_Suc [of 4 bs s resp] len by (simp add: numeral_eq_Suc)
      then show ?thesis
        using quiet_step(5) [OF ctx q, of resp] nv k5 by simp
    qed
  qed
  have two: "(\<forall>k < 6. \<not> hasDetectedVoice (feed s resp (take k bs)))
                \<and> hasDetectedVoice (feed s resp bs)
                \<and> onsets (feed s resp bs) = onsets s + 1"
    if c: "classify s resp bs = replicate 6 True"
  proof -
    have len: "length bs = 6" using c length_classify [of s resp bs] by simp
    have c': "classify s resp bs = replicate 6 True @ []" using c by simp
    note fc = fresh_candidates [OF f(1) f(3) f(4) c']
    have "\<forall>k < 6. \<not> hasDetectedVoice (feed s resp (take k bs))"
      using fc(2) by simp
    moreover have "hasDetectedVoice (feed s resp bs)" "onsets (feed s resp bs) = onsets s + 1"
      using fc(2,3) [of 6] len by simp_all
    ultimately show ?thesis by simp
  qed
  have three: "hasDetectedVoice (feed s resp (take 6 bs))
                \<and> onsets (feed s resp (take 6 bs)) = onsets s + 1
                \<and> hasDetectedVoice (feed s resp bs)
                \<and> onsets (feed s resp bs) = onsets s + 1"
    if c: "classify s resp bs = replicate 7 True"
  proof -
    have len: "length bs = 7" using c length_classify [of s resp bs] by simp
    have c': "classify s resp bs = replicate 7 True @ []" using c by simp
    note fc = fresh_candidates [OF f(1) f(3) f(4) c']
    show ?thesis
      using fc(2,3) [of 6] fc(2,3) [of 7] len by simp
  qed
  show ?thesis using one two three by blast
qed

lemma sqrt_1024: "sqrt 1024 = 32"
  by (rule real_sqrt_unique) simp_all

lemma sqrt_106929: "sqrt 106929 = 327"
  by (rule real_sqrt_unique) simp_all

lemma loud_features:
  "downsampleFloat32 loud_block 16000 RECORD_SAMPLE_RATE = [32, - 32]"
  "block_rms [32, - 32] = 32"
  "block_zcr [32, - 32] = 1 / 2"
  by (simp_all add: downsampleFloat32_def RECORD_SAMPLE_RATE_def toInt16_def block_rms_def
        block_zcr_def sqrt_1024 loud_block_def)

lemma louder_features:
  "downsampleFloat32 louder_block 16000 RECORD_SAMPLE_RATE = [327, - 327]"
  "block_rms [327, - 327] = 327"
  "block_zcr [327, - 327] = 1 / 2"
  by (simp_all add: downsampleFloat32_def RECORD_SAMPLE_RATE_def toInt16_def block_rms_def
        block_zcr_def sqrt_106929 louder_block_def)

lemma quiet_features:
  "downsampleFloat32 quiet_block 16000 RECORD_SAMPLE_RATE = [0, 0]"
  "block_rms [0, 0] = 0"
  "block_zcr [0, 0] = 0"
  by (simp_all add: downsampleFloat32_def RECORD_SAMPLE_RATE_def toInt16_def block_rms_def
        block_zcr_def quiet_block_def)

lemmas eval_session =
  fresh_session_def startRecording_def recorder_init_def showToast_def setBtnRecording_def
  process_block_def onaudioprocess_def voice_candidate_def Let_def
  loud_features louder_features quiet_features

lemma fresh_session_start:
  "currentEl (recorder_init (Some (plain_field []))) \<noteq> None"
  "\<not> isRecording (recorder_init (Some (plain_field [])))"
  "fresh_session = startRecording (recorder_init (Some (plain_field []))) 0 (Granted 16000)"
  by (simp_all add: recorder_init_def fresh_session_def)

lemma classify_four_loud_one_quiet:
  "classify fresh_session (Result None)
     [loud_block, loud_block, loud_block, loud_block, quiet_block]
   = [True, True, True, True, False]"
  by (simp add: eval_session)

lemma replicate_6: "replicate 6 x = [x, x, x, x, x, x]"
  by (simp add: numeral_eq_Suc)

lemma replicate_5: "replicate 5 x = [x, x, x, x, x]"
  by (simp add: numeral_eq_Suc)

lemma replicate_7: "replicate 7 x = [x, x, x, x, x, x, x]"
  by (simp add: numeral_eq_Suc)

lemma classify_six_loud:
  "classify fresh_session (Result None) (replicate 6 loud_block) = replicate 6 True"
  unfolding replicate_6 by (simp add: eval_session)

lemma classify_seven_loud:
  "classify fresh_session (Result None) (replicate 6 loud_block @ [louder_block])
   = replicate 7 True"
  unfolding replicate_6 replicate_7 by (simp add: eval_session)

theorem vad_onset_hysteresis_witness:
  "classify fresh_session (Result None)
     [loud_block, loud_block, loud_block, loud_block, quiet_block]
     = [True, True, True, True, False]
   \<and> \<not> hasDetectedVoice (feed fresh_session (Result None)
         [loud_block, loud_block, loud_block, loud_block, quiet_block])
   \<and> classify fresh_session (Result None) (replicate 6 loud_block) = replicate 6 True
   \<and> \<not> hasDetectedVoice (feed fresh_session (Result None) (replicate 5 loud_block))
   \<and> hasDetectedVoice (feed fresh_session (Result None) (replicate 6 loud_block))
   \<and> onsets (feed fresh_session (Result None) (replicate 6 loud_block)) = 1
   \<and> classify fresh_session (Result None) (replicate 6 loud_block @ [louder_block])
       = replicate 7 True
   \<and> onsets (feed fresh_session (Result None) (replicate 6 loud_block @ [louder_block])) = 1"
proof -
  let ?r = "Result None"
  let ?b1 = "[loud_block, loud_block, loud_block, loud_block, quiet_block]"
  let ?b2 = "replicate 6 loud_block"
  let ?b3 = "replicate 6 loud_block @ [louder_block]"
  note t = vad_onset_hysteresis [OF fresh_session_start, of ?r]
  have o: "onsets fresh_session = 0"
    by (simp add: onsets_def fresh_session_def startRecording_def recorder_init_def
          showToast_def setBtnRecording_def js_def)
  have "\<forall>k\<le>5. \<not> hasDetectedVoice (feed fresh_session ?r (take k ?b1))"
    using t [of ?b1, THEN conjunct1] classify_four_loud_one_quiet by (rule mp)
  then have "\<not> hasDetectedVoice (feed fresh_session ?r (take 5 ?b1))"
    by blast
  then have a: "\<not> hasDetectedVoice (feed fresh_session ?r ?b1)"
    by simp
  have two: "(\<forall>k<6. \<not> hasDetectedVoice (feed fresh_session ?r (take k ?b2)))
      \<and> hasDetectedVoice (feed fresh_session ?r ?b2)
      \<and> onsets (feed fresh_session ?r ?b2) = onsets fresh_session + 1"
    using t [of ?b2, THEN conjunct2, THEN conjunct1] classify_six_loud by (rule mp)
  then have "\<not> hasDetectedVoice (feed fresh_session ?r (take 5 ?b2))"
    by simp
  then have b: "\<not> hasDetectedVoice (feed fresh_session ?r (replicate 5 loud_block))"
    by (simp add: replicate_6 replicate_5)
  have c: "hasDetectedVoice (feed fresh_session ?r ?b2)"
    and d: "onsets (feed fresh_session ?r ?b2) = 1"
    using two o by simp_all
  have three: "hasDetectedVoice (feed fresh_session ?r (take 6 ?b3))
      \<and> onsets (feed fresh_session ?r (take 6 ?b3)) = onsets fresh_session + 1
      \<and> hasDetectedVoice (feed fresh_session ?r ?b3)
      \<and> onsets (feed fresh_session ?r ?b3) = onsets fresh_session + 1"
    using t [of ?b3, THEN conjunct2, THEN conjunct2] classify_seven_loud by (rule mp)
  then have e: "onsets (feed fresh_session ?r ?b3) = 1"
    using o by simp
  show ?thesis
    using classify_four_loud_one_quiet a classify_six_loud b c d classify_seven_loud e
    by (intro conjI)
qed


lemma feed_no_context:
  "audioCtx s = None \<Longrightarrow> feed s resp bs = s"
  by (induction bs) (simp_all add: feed_Nil feed_Cons process_block_no_context)

lemma step_logs:
  assumes "audioCtx s \<noteq> None \<longrightarrow> isRecording s"
  shows "(logs (process_block s resp b) = logs s
            \<and> (audioCtx (process_block s resp b) \<noteq> None \<longrightarrow> isRecording (process_block s resp b)))
       \<or> (logs (process_block s resp b) = logs s @ [''Stopping due to silence'']
            \<and> audioCtx (process_block s resp b) = None)"
proof (cases "audioCtx s")
  case None
  then show ?thesis using assms by (simp add: process_block_no_context)
next
  case (Some rate)
  then have rec: "isRecording s" using assms by simp
  show ?thesis
  proof (cases "voice_candidate s b")
    case True
    then show ?thesis using candidate_step [OF Some True, of resp] rec by simp
  next
    case False
    show ?thesis
    proof (cases "hasDetectedVoice s \<and> 45 \<le> silenceFrames s")
      case True
      then show ?thesis
        using quiet_stop [OF Some False, of resp] rec by simp
    next
      case n: False
      then show ?thesis
        using quiet_step [OF Some False n, of resp] rec by simp
    qed
  qed
qed

lemma stops_at_most_once:
  assumes "audioCtx s \<noteq> None \<longrightarrow> isRecording s"
  shows "silence_stops (feed s resp cs) \<le> silence_stops s + 1"
  using assms
proof (induction cs arbitrary: s)
  case Nil
  then show ?case by (simp add: feed_Nil)
next
  case (Cons b cs)
  from step_logs [OF Cons.prems, of resp b] show ?case
  proof
    assume a: "logs (process_block s resp b) = logs s
      \<and> (audioCtx (process_block s resp b) \<noteq> None \<longrightarrow> isRecording (process_block s resp b))"
    then have "silence_stops (process_block s resp b) = silence_stops s"
      by (simp add: silence_stops_def)
    then show ?thesis
      using Cons.IH [of "process_block s resp b"] a by (simp add: feed_Cons)
  next
    assume a: "logs (process_block s resp b) = logs s @ [''Stopping due to silence'']
      \<and> audioCtx (process_block s resp b) = None"
    then have "silence_stops (process_block s resp b) = silence_stops s + 1"
      by (simp add: silence_stops_def)
    then show ?thesis
      using a by (simp add: feed_Cons feed_no_context)
  qed
qed

text \<open>
  Claim C3. Once voice is confirmed, a run of blocks that are not voice candidates,
  starting with the silence counter at 0, leaves the session recording through the 45th
  block and stops it on the 46th; the silence timeout is logged once there and, over any
  sequence of blocks whatever, at most once.
\<close>

theorem vad_silence_timeout:
  assumes "isRecording s" and "audioCtx s = Some rate"
    and "hasDetectedVoice s" and "silenceFrames s = 0"
    and "classify s resp bs = replicate (length bs) False"
  shows "(length bs \<le> 45
            \<longrightarrow> isRecording (feed s resp bs) \<and> silence_stops (feed s resp bs) = silence_stops s)
       \<and> (length bs = 46
            \<longrightarrow> \<not> isRecording (feed s resp bs)
                \<and> silence_stops (feed s resp bs) = silence_stops s + 1)
       \<and> (\<forall>cs. silence_stops (feed s resp cs) \<le> silence_stops s + 1)"
proof -
  have short: "isRecording (feed s resp bs) \<and> silence_stops (feed s resp bs) = silence_stops s"
    if "length bs \<le> 45"
    using quiet_run [OF assms(2) assms(5) assms(3)] that assms(1,4)
    by (simp add: silence_stops_def)
  have long: "\<not> isRecording (feed s resp bs)
      \<and> silence_stops (feed s resp bs) = silence_stops s + 1"
    if len: "length bs = 46"
  proof -
    let ?xs = "take 45 bs"
    let ?s45 = "feed s resp ?xs"
    have lx: "length ?xs = 45" using len by simp
    have cx: "classify s resp ?xs = replicate (length ?xs) False"
      using assms(5) len by (simp add: classify_take)
    have q: "audioCtx ?s45 = Some rate \<and> isRecording ?s45 = isRecording s
        \<and> silenceFrames ?s45 = silenceFrames s + length ?xs \<and> hasDetectedVoice ?s45
        \<and> onsets ?s45 = onsets s \<and> logs ?s45 = logs s"
      using quiet_run [OF assms(2) cx assms(3)] assms(4) lx by simp
    have d: "drop 45 bs = [bs ! 45]"
      using len drop_last1 [of bs 45] by simp
    have "classify s resp bs = classify s resp ?xs @ classify ?s45 resp (drop 45 bs)"
      by (metis append_take_drop_id classify_append)
    then have "voice_candidate ?s45 (bs ! 45) \<in> set (classify s resp bs)"
      using d by simp
    then have nc: "\<not> voice_candidate ?s45 (bs ! 45)"
      unfolding assms(5) by simp
    have sf: "45 \<le> silenceFrames ?s45" using q lx assms(4) by simp
    have hv: "hasDetectedVoice ?s45" using q by simp
    have ctx: "audioCtx ?s45 = Some rate" using q by simp
    have fd: "feed s resp bs = process_block ?s45 resp (bs ! 45)"
      by (metis append_take_drop_id d feed_append feed_Cons feed_Nil)
    note st = quiet_stop [OF ctx nc hv sf, of resp]
    show ?thesis
      using st(1,6) q by (simp add: fd silence_stops_def)
  qed
  have once: "\<forall>cs. silence_stops (feed s resp cs) \<le> silence_stops s + 1"
    using stops_at_most_once [of s resp] assms(1) by simp
  show ?thesis using short long once by blast
qed

text \<open>
  Claim C8. The RMS history never holds more than 30 values: a block pushes its RMS
  and, when that makes 31, the oldest value is shifted out; \<open>startRecording\<close> empties the
  history (or returns at its guard), so the bound holds after every block of a session.
\<close>

theorem vad_history_bounded:
  assumes "length (vadHistory s) \<le> 30"
  shows "length (vadHistory (process_block s resp b)) \<le> 30
       \<and> length (vadHistory (feed s resp bs)) \<le> 30
       \<and> (audioCtx s = Some rate
            \<longrightarrow> vadHistory (process_block s resp b)
                = (if length (vadHistory s) = 30 then tl (vadHistory s) else vadHistory s)
                  @ [block_rms (downsampleFloat32 b rate RECORD_SAMPLE_RATE)])
       \<and> (vadHistory (startRecording s0 now m) = [] \<or> startRecording s0 now m = s0
            \<or> vadHistory (startRecording s0 now m) = vadHistory s0)"
proof -
  have run_ok: "length (vadHistory (feed s resp bs)) \<le> 30"
    using assms
  proof (induction bs arbitrary: s)
    case Nil
    then show ?case by (simp add: feed_Nil)
  next
    case (Cons b bs)
    then show ?case by (simp add: feed_Cons vadHistory_step)
  qed
  have push: "vadHistory (process_block s resp b)
                = (if length (vadHistory s) = 30 then tl (vadHistory s) else vadHistory s)
                  @ [block_rms (downsampleFloat32 b rate RECORD_SAMPLE_RATE)]"
    if "audioCtx s = Some rate"
    using that assms
    by (cases "vadHistory s")
       (auto simp add: process_block_def onaudioprocess_def Let_def stopRecording_fields
          showToast_def)
  have start: "vadHistory (startRecording s0 now m) = [] \<or> startRecording s0 now m = s0
            \<or> vadHistory (startRecording s0 now m) = vadHistory s0"
    by (cases m)
       (auto simp add: startRecording_def showToast_def setBtnRecording_def resetBtn_def
          cleanupRecording_def Let_def split: option.splits)
  show ?thesis
    using vadHistory_step [OF assms] run_ok push start by blast
qed

text \<open>
  Claim C10. When \<open>stopRecording\<close> ends a recording whose chunks hold no sample, nothing
  is posted to the server, the toasts are \<open>Transcribing...\<close> and then
  \<open>No audio recorded.\<close>, and the target element is left as it was.
\<close>

theorem stop_with_no_audio:
  assumes "isRecording s" and "concat (recordedChunks s) = []"
  shows "posted (stopRecording s resp) = posted s
       \<and> toasts (stopRecording s resp)
           = toasts s @ [(js ''Transcribing'' @ [8230], ToastInfo, 3200),
                         (js ''No audio recorded.'', ToastInfo, 1600)]
       \<and> currentEl (stopRecording s resp) = currentEl s
       \<and> \<not> isRecording (stopRecording s resp)"
  using assms
  by (simp add: stopRecording_def cleanupRecording_def stop_finally_def showToast_def
        setBtnProcessing_def resetBtn_def Let_def split: option.splits)


lemma context_step:
  assumes "audioCtx s = None \<or> (audioCtx s = Some r \<and> isRecording s)"
  shows "audioCtx (process_block s resp b) = None
       \<or> (audioCtx (process_block s resp b) = Some r \<and> isRecording (process_block s resp b))"
proof (cases "audioCtx s")
  case None
  then show ?thesis by (simp add: process_block_no_context)
next
  case (Some rate)
  then have r: "rate = r" and rec: "isRecording s" using assms by simp_all
  show ?thesis
  proof (cases "voice_candidate s b")
    case True
    then show ?thesis using candidate_step(1,2) [OF Some True, of resp] r rec by simp
  next
    case False
    show ?thesis
    proof (cases "hasDetectedVoice s \<and> 45 \<le> silenceFrames s")
      case True
      then show ?thesis using quiet_stop(2) [OF Some False, of resp] rec by simp
    next
      case n: False
      then show ?thesis using quiet_step(1,2) [OF Some False n, of resp] r rec by simp
    qed
  qed
qed

lemma quiet_block_not_candidate:
  "audioCtx s = None \<or> audioCtx s = Some 16000 \<Longrightarrow> \<not> voice_candidate s quiet_block"
  by (auto simp add: voice_candidate_def Let_def quiet_features)

lemma classify_quiet_blocks:
  "audioCtx s = None \<or> (audioCtx s = Some 16000 \<and> isRecording s)
     \<Longrightarrow> classify s resp (replicate n quiet_block) = replicate n False"
proof (induction n arbitrary: s)
  case 0
  then show ?case by simp
next
  case (Suc n)
  have "\<not> voice_candidate s quiet_block"
    using Suc.prems quiet_block_not_candidate [of s] by blast
  then show ?case
    using Suc.IH [OF context_step [OF Suc.prems, of resp quiet_block]] by simp
qed

lemma confirmed_session_facts:
  "isRecording confirmed_session" "audioCtx confirmed_session = Some 16000"
  "hasDetectedVoice confirmed_session" "silenceFrames confirmed_session = 0"
  "logs confirmed_session = []"
  unfolding confirmed_session_def replicate_6
  by (simp_all add: feed_def eval_session)

theorem vad_silence_timeout_witness:
  "isRecording confirmed_session \<and> hasDetectedVoice confirmed_session
   \<and> silenceFrames confirmed_session = 0
   \<and> classify confirmed_session (Result None) (replicate 46 quiet_block) = replicate 46 False
   \<and> isRecording (feed confirmed_session (Result None) (replicate 45 quiet_block))
   \<and> silence_stops (feed confirmed_session (Result None) (replicate 45 quiet_block)) = 0
   \<and> \<not> isRecording (feed confirmed_session (Result None) (replicate 46 quiet_block))
   \<and> silence_stops (feed confirmed_session (Result None) (replicate 46 quiet_block)) = 1
   \<and> silence_stops (feed confirmed_session (Result None) (replicate 60 quiet_block)) \<le> 1"
proof -
  let ?r = "Result None"
  note f = confirmed_session_facts
  have z: "silence_stops confirmed_session = 0"
    by (simp add: silence_stops_def f)
  have c: "classify confirmed_session ?r (replicate n quiet_block)
      = replicate (length (replicate n quiet_block)) False" for n
    using classify_quiet_blocks [of confirmed_session ?r n] f by simp
  note t45 = vad_silence_timeout [OF f(1) f(2) f(3) f(4) c [of 45]]
  note t46 = vad_silence_timeout [OF f(1) f(2) f(3) f(4) c [of 46]]
  have a: "isRecording (feed confirmed_session ?r (replicate 45 quiet_block))
      \<and> silence_stops (feed confirmed_session ?r (replicate 45 quiet_block))
        = silence_stops confirmed_session"
    using t45 [THEN conjunct1] by simp
  have b: "\<not> isRecording (feed confirmed_session ?r (replicate 46 quiet_block))
      \<and> silence_stops (feed confirmed_session ?r (replicate 46 quiet_block))
        = silence_stops confirmed_session + 1"
    using t46 [THEN conjunct2, THEN conjunct1] by simp
  have d: "silence_stops (feed confirmed_session ?r (replicate 60 quiet_block))
      \<le> silence_stops confirmed_session + 1"
    using t46 [THEN conjunct2, THEN conjunct2] by blast
  have c46: "classify confirmed_session ?r (replicate 46 quiet_block) = replicate 46 False"
    using c [of 46] by simp
  show ?thesis
    using f(1) f(3) f(4) c46 a b d z by simp
qed

lemma silent_session_facts:
  "audioCtx silent_session = Some 16000" "vadHistory silent_session = replicate 30 0"
proof -
  have r: "replicate 30 x = [x, x, x, x, x, x, x, x, x, x, x, x, x, x, x, x, x, x, x, x,
      x, x, x, x, x, x, x, x, x, x]" for x :: 'a
    by (simp add: numeral_eq_Suc)
  show "audioCtx silent_session = Some 16000"
    unfolding silent_session_def r by (simp add: feed_def eval_session)
  show "vadHistory silent_session = replicate 30 0"
    unfolding silent_session_def r by (simp add: feed_def eval_session)
qed

theorem vad_history_bounded_witness:
  "length (vadHistory silent_session) = 30
   \<and> vadHistory (process_block silent_session (Result None) loud_block)
       = replicate 29 0 @ [32]
   \<and> length (vadHistory (process_block silent_session (Result None) loud_block)) \<le> 30
   \<and> length (vadHistory (feed silent_session (Result None) (replicate 100 loud_block))) \<le> 30"
proof -
  note f = silent_session_facts
  have l: "length (vadHistory silent_session) \<le> 30" by (simp add: f)
  note t = vad_history_bounded [OF l, of "Result None" loud_block "replicate 100 loud_block" 16000]
  have "vadHistory (process_block silent_session (Result None) loud_block)
      = (if length (vadHistory silent_session) = 30 then tl (vadHistory silent_session)
         else vadHistory silent_session)
        @ [block_rms (downsampleFloat32 loud_block 16000 RECORD_SAMPLE_RATE)]"
    using t [THEN conjunct2, THEN conjunct2, THEN conjunct1] f(1) by (rule mp)
  then have a: "vadHistory (process_block silent_session (Result None) loud_block)
      = replicate 29 0 @ [32]"
    by (simp add: f loud_features tl_replicate)
  show ?thesis
    using a t [THEN conjunct1] t [THEN conjunct2, THEN conjunct1] by (simp add: f)
qed

theorem stop_with_no_audio_witness:
  "isRecording fresh_session \<and> concat (recordedChunks fresh_session) = []
   \<and> posted (stopRecording fresh_session (Result (Some (js ''hello'')))) = []
   \<and> toasts (stopRecording fresh_session (Result (Some (js ''hello''))))
       = toasts fresh_session @ [(js ''Transcribing'' @ [8230], ToastInfo, 3200),
                                 (js ''No audio recorded.'', ToastInfo, 1600)]
   \<and> currentEl (stopRecording fresh_session (Result (Some (js ''hello''))))
       = Some (plain_field [])"
proof -
  have a: "isRecording fresh_session" and b: "concat (recordedChunks fresh_session) = []"
    and c: "posted fresh_session = []" and d: "currentEl fresh_session = Some (plain_field [])"
    by (simp_all add: fresh_session_def startRecording_def recorder_init_def showToast_def
          setBtnRecording_def)
  show ?thesis
    using stop_with_no_audio [OF a b, of "Result (Some (js ''hello''))"] a b c d
    by simp
qed


lemma stopRecording_timer:
  assumes "isRecording s"
  shows "maxRecordingTimer (stopRecording s resp) = None"
    and "timeouts (stopRecording s resp)
          = (case maxRecordingTimer s of None \<Rightarrow> timeouts s | Some h \<Rightarrow> remove1 h (timeouts s))"
  using assms
  by (simp_all add: stopRecording_def cleanupRecording_def stop_finally_def showToast_def
        setBtnProcessing_def resetBtn_def Let_def
        split: option.splits response.splits outcome.splits)

lemma stopRecording_idle:
  "\<not> isRecording s \<Longrightarrow> stopRecording s resp = s"
  by (simp add: stopRecording_def)

lemma candidate_step_timer:
  assumes "audioCtx s = Some rate" and "voice_candidate s b"
  shows "maxRecordingTimer (process_block s resp b) = maxRecordingTimer s"
    and "timeouts (process_block s resp b) = timeouts s"
    and "recordingStartTime (process_block s resp b) = recordingStartTime s"
  using assms
  by (auto simp add: process_block_def onaudioprocess_def voice_candidate_def Let_def
        showToast_def)

lemma quiet_step_timer:
  assumes "audioCtx s = Some rate" and "\<not> voice_candidate s b"
    and "\<not> (hasDetectedVoice s \<and> 45 \<le> silenceFrames s)"
  shows "maxRecordingTimer (process_block s resp b) = maxRecordingTimer s"
    and "timeouts (process_block s resp b) = timeouts s"
    and "recordingStartTime (process_block s resp b) = recordingStartTime s"
  using assms
  by (auto simp add: process_block_def onaudioprocess_def voice_candidate_def Let_def
        showToast_def)

lemma quiet_stop_timer:
  assumes "audioCtx s = Some rate" and "\<not> voice_candidate s b"
    and "hasDetectedVoice s" and "45 \<le> silenceFrames s" and "isRecording s"
  shows "maxRecordingTimer (process_block s resp b) = None"
    and "timeouts (process_block s resp b)
          = (case maxRecordingTimer s of None \<Rightarrow> timeouts s | Some h \<Rightarrow> remove1 h (timeouts s))"
    and "recordingStartTime (process_block s resp b) = recordingStartTime s"
  using assms
  by (auto simp add: process_block_def onaudioprocess_def voice_candidate_def Let_def
        stopRecording_fields stopRecording_timer split: option.splits)

lemma process_block_ok:
  assumes "recorder_ok s t"
  shows "recorder_ok (process_block s resp b) t"
proof (cases "audioCtx s")
  case None
  then show ?thesis using assms by (simp add: process_block_no_context)
next
  case (Some rate)
  then have rec: "isRecording s" using assms by (auto simp add: recorder_ok_def split: if_splits)
  show ?thesis
  proof (cases "voice_candidate s b")
    case True
    then show ?thesis
      using candidate_step(1,2) [OF Some True, of resp] candidate_step_timer [OF Some True, of resp]
        assms rec
      by (simp add: recorder_ok_def)
  next
    case False
    show ?thesis
    proof (cases "hasDetectedVoice s \<and> 45 \<le> silenceFrames s")
      case True
      then show ?thesis
        using quiet_stop(1,2) [OF Some False, of resp] quiet_stop_timer [OF Some False _ _ rec, of resp]
          assms rec
        by (simp add: recorder_ok_def)
    next
      case n: False
      then show ?thesis
        using quiet_step(1,2) [OF Some False n, of resp] quiet_step_timer [OF Some False n, of resp]
          assms rec
        by (simp add: recorder_ok_def)
    qed
  qed
qed

lemma stopRecording_ok:
  assumes "recorder_ok s t"
  shows "recorder_ok (stopRecording s resp) t'"
proof (cases "isRecording s")
  case True
  then show ?thesis
    using assms stopRecording_fields(1,2) [of s resp] stopRecording_timer [OF True, of resp]
    by (simp add: recorder_ok_def)
next
  case False
  then show ?thesis using assms by (simp add: stopRecording_idle recorder_ok_def)
qed

lemma startRecording_ok:
  assumes "recorder_ok s t0" and "t0 \<le> t"
    and "isRecording s \<longrightarrow> t < recordingStartTime s + 30000"
  shows "recorder_ok (startRecording s t m) t"
proof (cases "m = Unsupported \<or> currentEl s = None \<or> isRecording s")
  case True
  then have same: "startRecording s t m = s" by (simp add: startRecording_def)
  show ?thesis
    using assms unfolding same by (auto simp add: recorder_ok_def split: if_splits)
next
  case False
  then show ?thesis
    using assms(1)
    by (cases m)
       (auto simp add: startRecording_def recorder_ok_def showToast_def setBtnRecording_def
          resetBtn_def cleanupRecording_def Let_def split: if_splits)
qed

lemma fire_due_ok:
  assumes "recorder_ok s t0" and "t0 \<le> t"
  shows "recorder_ok (fire_due s t resp) t"
    and "recordingStartTime (fire_due s t resp) = recordingStartTime s"
    and "currentEl (fire_due s t resp) = currentEl s \<or> \<not> isRecording (fire_due s t resp)"
proof -
  show "recorder_ok (fire_due s t resp) t"
  proof (cases "isRecording s")
    case False
    then have "timeouts s = []" using assms(1) by (simp add: recorder_ok_def)
    then have "fire_due s t resp = s" by (simp add: fire_due_def)
    then show ?thesis using assms False by (simp add: recorder_ok_def)
  next
    case True
    then have tm: "timeouts s = [recordingStartTime s + 30000]"
      and mt: "maxRecordingTimer s = Some (recordingStartTime s + 30000)"
      and st: "recordingStartTime s \<le> t0"
      using assms(1) by (simp_all add: recorder_ok_def)
    show ?thesis
    proof (cases "recordingStartTime s + 30000 \<le> t")
      case due: True
      let ?s1 = "s\<lparr>timeouts := []\<rparr>"
      have f: "fire_due s t resp = stopRecording ?s1 resp"
        using due tm True by (simp add: fire_due_def maxRecordingTimeout_def)
      have r1: "isRecording ?s1" using True by simp
      show ?thesis
        unfolding f
        using stopRecording_fields(1,2) [of ?s1 resp] stopRecording_timer [OF r1, of resp] r1 mt
        by (simp add: recorder_ok_def)
    next
      case False
      then have "fire_due s t resp = s" using tm by (simp add: fire_due_def)
      then show ?thesis using assms True False by (simp add: recorder_ok_def)
    qed
  qed
  show "recordingStartTime (fire_due s t resp) = recordingStartTime s"
  proof (cases "isRecording s \<and> recordingStartTime s + 30000 \<le> t")
    case True
    then have tm: "timeouts s = [recordingStartTime s + 30000]"
      using assms(1) by (simp add: recorder_ok_def)
    have "fire_due s t resp = stopRecording (s\<lparr>timeouts := []\<rparr>) resp"
      using True tm by (simp add: fire_due_def maxRecordingTimeout_def)
    then show ?thesis by (simp add: stopRecording_fields)
  next
    case False
    then have "fire_due s t resp = s"
      using assms(1) by (auto simp add: fire_due_def recorder_ok_def split: if_splits)
    then show ?thesis by simp
  qed
  show "currentEl (fire_due s t resp) = currentEl s \<or> \<not> isRecording (fire_due s t resp)"
  proof (cases "isRecording s \<and> recordingStartTime s + 30000 \<le> t")
    case True
    then have tm: "timeouts s = [recordingStartTime s + 30000]"
      using assms(1) by (simp add: recorder_ok_def)
    have "fire_due s t resp = stopRecording (s\<lparr>timeouts := []\<rparr>) resp"
      using True tm by (simp add: fire_due_def maxRecordingTimeout_def)
    then show ?thesis by (simp add: stopRecording_fields)
  next
    case False
    then have "fire_due s t resp = s"
      using assms(1) by (auto simp add: fire_due_def recorder_ok_def split: if_splits)
    then show ?thesis by simp
  qed
qed

lemma deliver_ok:
  assumes "recorder_ok s t0" and "t0 \<le> t"
  shows "recorder_ok (deliver s (t, ev, resp)) t"
proof -
  let ?s1 = "fire_due s t resp"
  have ok1: "recorder_ok ?s1 t" using fire_due_ok(1) [OF assms] .
  have "recorder_ok (handle ?s1 t ev resp) t"
  proof (cases ev)
    case (AudioProcess b)
    then show ?thesis using process_block_ok [OF ok1] by (simp add: handle_def)
  next
    case (MicClick m)
    have a: "recorder_ok (stopRecording ?s1 resp) t" using stopRecording_ok [OF ok1] .
    have b: "recorder_ok (startRecording ?s1 t m) t"
      using startRecording_ok [OF ok1, of t m] ok1 by (simp add: recorder_ok_def)
    show ?thesis using MicClick a b ok1 by (simp add: handle_def micClick_def)
  next
    case (FocusChange el)
    then show ?thesis using ok1 by (simp add: handle_def recorder_ok_def)
  next
    case Tick
    then show ?thesis using ok1 by (simp add: handle_def)
  qed
  then show ?thesis by (simp add: deliver_def)
qed

lemma run_snoc: "run s (es @ [e]) = deliver (run s es) e"
  by (simp add: run_def)

lemma run_ok:
  assumes "sorted (map fst es)"
  shows "es = [] \<or> recorder_ok (run (recorder_init el) es) (fst (last es))"
  using assms
proof (induction es rule: rev_induct)
  case Nil
  then show ?case by simp
next
  case (snoc e es)
  obtain t ev resp where e: "e = (t, ev, resp)" by (cases e) auto
  have srt: "sorted (map fst es)" using snoc.prems by (simp add: sorted_append)
  have "recorder_ok (run (recorder_init el) es) (if es = [] then t else fst (last es))"
    using snoc.IH [OF srt] by (auto simp add: run_def recorder_ok_def recorder_init_def)
  moreover have "(if es = [] then t else fst (last es)) \<le> t"
    using snoc.prems e by (auto simp add: sorted_append)
  ultimately have "recorder_ok (deliver (run (recorder_init el) es) (t, ev, resp)) t"
    by (rule deliver_ok)
  then show ?case by (simp add: run_snoc e)
qed

lemma captured_iff:
  "captured s t b resp = (audioCtx (fire_due s t resp) \<noteq> None)"
  by (auto simp add: captured_def onaudioprocess_def Let_def split: option.splits)

text \<open>
  Claim C9. In every run of the recorder in which a timeout fires once its deadline is
  reached: \<open>startRecording\<close>, when it starts a session at time \<open>now\<close>, leaves exactly one
  timeout pending, due at \<open>now + 30000\<close>; its callback stops a session that is still
  recording and releases the audio graph; and a block is captured only at a time \<open>t\<close>
  with \<open>recordingStartTime \<le> t < recordingStartTime + 30000\<close>, whatever the blocks before
  it held.
\<close>

theorem max_recording_duration:
  assumes "sorted (map fst es)" and "\<forall>e \<in> set es. fst e \<le> t"
    and "s = run (recorder_init el) es"
  shows "(currentEl s \<noteq> None \<and> \<not> isRecording s
            \<longrightarrow> isRecording (startRecording s now (Granted rate))
                \<and> recordingStartTime (startRecording s now (Granted rate)) = now
                \<and> timeouts (startRecording s now (Granted rate)) = [now + 30000])
       \<and> (isRecording s
            \<longrightarrow> \<not> isRecording (maxRecordingTimeout s resp)
                \<and> audioCtx (maxRecordingTimeout s resp) = None)
       \<and> (captured s t b resp
            \<longrightarrow> recordingStartTime s \<le> t \<and> t < recordingStartTime s + 30000)"
proof -
  define t0 where "t0 = (if es = [] then t else fst (last es))"
  have ok: "recorder_ok s t0"
    using run_ok [OF assms(1), of el] assms(3)
    by (auto simp add: t0_def run_def recorder_ok_def recorder_init_def)
  have le: "t0 \<le> t"
    using assms(2) by (auto simp add: t0_def)
  have one: "isRecording (startRecording s now (Granted rate))
      \<and> recordingStartTime (startRecording s now (Granted rate)) = now
      \<and> timeouts (startRecording s now (Granted rate)) = [now + 30000]"
    if "currentEl s \<noteq> None \<and> \<not> isRecording s"
  proof -
    have "timeouts s = []" using ok that by (simp add: recorder_ok_def)
    then show ?thesis
      using startRecording_fresh(2,10,11) [of s "startRecording s now (Granted rate)" now rate] that
      by simp
  qed
  have two: "\<not> isRecording (maxRecordingTimeout s resp)
      \<and> audioCtx (maxRecordingTimeout s resp) = None"
    if "isRecording s"
    using that by (simp add: maxRecordingTimeout_def stopRecording_fields)
  have three: "recordingStartTime s \<le> t \<and> t < recordingStartTime s + 30000"
    if c: "captured s t b resp"
  proof -
    let ?s1 = "fire_due s t resp"
    have "audioCtx ?s1 \<noteq> None"
      using c by (simp add: captured_iff)
    moreover have "recorder_ok ?s1 t" using fire_due_ok(1) [OF ok le] .
    ultimately have "recordingStartTime ?s1 \<le> t \<and> t < recordingStartTime ?s1 + 30000"
      by (auto simp add: recorder_ok_def split: if_splits)
    then show ?thesis using fire_due_ok(2) [OF ok le, of resp] by simp
  qed
  show ?thesis using one two three by blast
qed

lemma sample_run_state:
  "isRecording (run (recorder_init (Some (plain_field []))) sample_run)"
  "audioCtx (run (recorder_init (Some (plain_field []))) sample_run) = Some 16000"
  "timeouts (run (recorder_init (Some (plain_field []))) sample_run) = [30000]"
  "recordingStartTime (run (recorder_init (Some (plain_field []))) sample_run) = 0"
  by (simp_all add: run_def sample_run_def deliver_def fire_due_def handle_def micClick_def
        maxRecordingTimeout_def eval_session)

theorem max_recording_duration_witness:
  "sorted (map fst sample_run)
   \<and> isRecording (run (recorder_init (Some (plain_field []))) sample_run)
   \<and> \<not> isRecording (maxRecordingTimeout
           (run (recorder_init (Some (plain_field []))) sample_run) (Result None))
   \<and> captured (run (recorder_init (Some (plain_field []))) sample_run) 29999 loud_block
         (Result None)
   \<and> recordingStartTime (run (recorder_init (Some (plain_field []))) sample_run) \<le> 29999
   \<and> 29999 < recordingStartTime (run (recorder_init (Some (plain_field []))) sample_run) + 30000
   \<and> \<not> captured (run (recorder_init (Some (plain_field []))) sample_run) 30000 loud_block
         (Result None)"
proof -
  let ?s = "run (recorder_init (Some (plain_field []))) sample_run"
  let ?r = "Result None"
  note f = sample_run_state
  have srt: "sorted (map fst sample_run)" by (simp add: sample_run_def)
  have bnd: "\<forall>e \<in> set sample_run. fst e \<le> 29999" by (simp add: sample_run_def)
  note t = max_recording_duration [OF srt bnd refl, where resp = ?r and b = loud_block]
  have fd: "fire_due ?s 29999 ?r = ?s"
    by (simp add: fire_due_def f)
  have cap: "captured ?s 29999 loud_block ?r"
    unfolding captured_iff fd by (simp add: f)
  have b: "recordingStartTime ?s \<le> 29999 \<and> 29999 < recordingStartTime ?s + 30000"
    using t [THEN conjunct2, THEN conjunct2] cap by (rule mp)
  have a: "\<not> isRecording (maxRecordingTimeout ?s ?r)"
    using t [THEN conjunct2, THEN conjunct1] f(1) by blast
  have fd2: "fire_due ?s 30000 ?r = stopRecording (?s\<lparr>timeouts := []\<rparr>) ?r"
    by (simp add: fire_due_def f maxRecordingTimeout_def)
  have "audioCtx (fire_due ?s 30000 ?r) = None"
    unfolding fd2 by (simp add: stopRecording_fields f)
  then have late: "\<not> captured ?s 30000 loud_block ?r"
    by (simp add: captured_iff)
  show ?thesis using srt f(1) a cap b late by simp
qed


section \<open>Properties of the streaming client\<close>

lemma partial_dropped:
  assumes "\<not> passes_throttle (lastPartial s) (lastPartialTs s) now (hypothesis_text t)"
  shows "handleWsMessage s now (Partial t) = Done s"
  using assms
  by (auto simp add: handleWsMessage_def passes_throttle_def hypothesis_text_def startsWith_def
        Let_def PARTIAL_MIN_CHARS_def PARTIAL_DEBOUNCE_MS_def)

lemma partial_emitted:
  assumes "passes_throttle (lastPartial s) (lastPartialTs s) now (hypothesis_text t)"
  shows "handleWsMessage s now (Partial t)
         = (case currentEl s of
              None \<Rightarrow> Done (s\<lparr>lastPartial := hypothesis_text t, lastPartialTs := now\<rparr>)
            | Some el \<Rightarrow>
                updateLiveText (s\<lparr>lastPartial := hypothesis_text t, lastPartialTs := now\<rparr>)
                  el (hypothesis_text t))"
  using assms
  by (cases "currentEl s")
     (auto simp add: handleWsMessage_def passes_throttle_def hypothesis_text_def startsWith_def
        Let_def PARTIAL_MIN_CHARS_def PARTIAL_DEBOUNCE_MS_def)

lemma with_el_setCaret:
  "with_el s (setCaret el c)
   = (case selectionStart el of
        None \<Rightarrow> Threw InvalidStateError (s\<lparr>currentEl := Some el\<rparr>)
      | Some k \<Rightarrow>
          Done (s\<lparr>currentEl :=
                    Some (el\<lparr>selectionStart := Some (min c (length (fieldValue el))),
                            selectionEnd := Some (min c (length (fieldValue el)))\<rparr>)\<rparr>))"
  by (simp add: setCaret_def split: option.splits)

lemma updateLiveText_throttle_state:
  "lastPartial (state_of (updateLiveText s el txt)) = lastPartial s"
  "lastPartialTs (state_of (updateLiveText s el txt)) = lastPartialTs s"
  by (simp_all add: updateLiveText_def with_el_setCaret Let_def
        split: option.splits selection.splits)

lemma updateLiveText_field:
  assumes "\<not> (isContentEditable el \<or> isProseMirror el)"
    and "currentEl s = Some el" and "live_ok s"
  shows "live_text (state_of (updateLiveText s el txt)) = Some txt"
    and "live_ok (state_of (updateLiveText s el txt))"
  using assms
  by (auto simp add: updateLiveText_def with_el_setCaret live_text_def live_ok_def Let_def
        split: option.splits)

lemma updateLiveText_editor:
  assumes "isContentEditable el \<or> isProseMirror el"
    and "currentEl s = Some el" and "live_ok s"
  shows "live_text (state_of (updateLiveText s el txt)) = Some txt"
    and "live_ok (state_of (updateLiveText s el txt))"
proof -
  show "live_text (state_of (updateLiveText s el txt)) = Some txt"
  proof (cases "liveNode s")
    case None
    then show ?thesis
      using assms
      by (cases "docSelection el")
         (auto simp add: updateLiveText_def live_text_def live_ok_def Let_def nth_append)
  next
    case (Some i)
    then show ?thesis
      using assms
      by (auto simp add: updateLiveText_def live_text_def live_ok_def Let_def)
  qed
  show "live_ok (state_of (updateLiveText s el txt))"
  proof (cases "liveNode s")
    case None
    then show ?thesis
      using assms
      by (cases "docSelection el")
         (auto simp add: updateLiveText_def live_ok_def Let_def)
  next
    case (Some i)
    then show ?thesis
      using assms
      by (auto simp add: updateLiveText_def live_ok_def Let_def)
  qed
qed

lemma updateLiveText_shows:
  assumes "live_ok s" and "currentEl s = Some el"
  shows "live_text (state_of (updateLiveText s el txt)) = Some txt"
    and "live_ok (state_of (updateLiveText s el txt))"
  using updateLiveText_field [OF _ assms(2,1)] updateLiveText_editor [OF _ assms(2,1)]
  by blast+

lemma resetLiveState_ok:
  assumes "case currentEl s of
             None \<Rightarrow> True
           | Some el \<Rightarrow>
               isContentEditable el \<or> isProseMirror el
               \<or> (case selectionStart el of
                     Some k \<Rightarrow> k \<le> length (fieldValue el) | None \<Rightarrow> True)"
  shows "live_ok (resetLiveState s)"
  using assms by (auto simp add: live_ok_def resetLiveState_def split: option.splits)

lemma insertTextAtCursor_ok:
  assumes "live_ok s" and "currentEl s = Some el"
  shows "live_ok (state_of (and_then (with_el s (insertTextAtCursor el txt))
      (\<lambda>s1. Done (resetLiveState s1))))"
  using assms
  by (auto simp add: insertTextAtCursor_def with_el_setCaret live_ok_def resetLiveState_def
        Let_def split: option.splits selection.splits)

lemma finalizeLiveText_ok:
  assumes "live_ok s" and "currentEl s = Some el"
  shows "live_ok (state_of (finalizeLiveText s el txt))"
proof (cases "isContentEditable el")
  case True
  show ?thesis
  proof (cases "liveNode s")
    case None
    then show ?thesis
      using True insertTextAtCursor_ok [OF assms]
      by (simp add: finalizeLiveText_def)
  next
    case (Some i)
    then show ?thesis
      using True assms
      by (auto simp add: finalizeLiveText_def live_ok_def resetLiveState_def)
  qed
next
  case False
  show ?thesis
  proof (cases "liveStartIdx s")
    case None
    then show ?thesis
      using False insertTextAtCursor_ok [OF assms]
      by (simp add: finalizeLiveText_def)
  next
    case (Some i)
    then show ?thesis
      using False assms
      by (auto simp add: finalizeLiveText_def with_el_setCaret live_ok_def resetLiveState_def
            split: option.splits)
  qed
qed

lemma clearLiveText_ok:
  assumes "live_ok s"
  shows "live_ok (state_of (clearLiveText s))"
  using assms
  by (auto simp add: clearLiveText_def with_el_setCaret live_ok_def resetLiveState_def
        split: option.splits)

lemma live_ok_cong:
  assumes "currentEl s' = currentEl s" and "liveNode s' = liveNode s"
    and "liveStartIdx s' = liveStartIdx s"
  shows "live_ok s' = live_ok s"
  using assms by (simp add: live_ok_def cong: option.case_cong)

lemma live_ok_update [simp]:
  "live_ok (s\<lparr>lastPartial := a\<rparr>) = live_ok s"
  "live_ok (s\<lparr>lastPartialTs := b\<rparr>) = live_ok s"
  "live_ok (s\<lparr>ws := c\<rparr>) = live_ok s"
  "live_ok (s\<lparr>isRecording := d\<rparr>) = live_ok s"
  "live_ok (s\<lparr>audioCtx := e\<rparr>) = live_ok s"
  "live_ok (s\<lparr>micBtn := f\<rparr>) = live_ok s"
  "live_ok (s\<lparr>toasts := g\<rparr>) = live_ok s"
  "live_ok (s\<lparr>sent := h\<rparr>) = live_ok s"
  by (rule live_ok_cong; simp)+

lemma cleanupStreaming_ok:
  assumes "live_ok s"
  shows "live_ok (state_of (cleanupStreaming s err))"
proof -
  let ?s1 = "(cleanupAudioGraph s)\<lparr>ws := None, isRecording := False\<rparr>"
  have ok1: "live_ok ?s1"
    using assms by (simp add: cleanupAudioGraph_def)
  show ?thesis
  proof (cases err)
    case False
    then show ?thesis using ok1 by (simp add: cleanupStreaming_def Let_def)
  next
    case True
    have c: "live_ok (state_of (clearLiveText ?s1))" using ok1 by (rule clearLiveText_ok)
    show ?thesis
      using True c
      by (cases "clearLiveText ?s1") (simp_all add: cleanupStreaming_def Let_def)
  qed
qed

lemma ws_onmessage_ok:
  assumes "live_ok s"
  shows "live_ok (ws_onmessage s now msg)"
proof (cases msg)
  case (Partial t)
  show ?thesis
  proof (cases "passes_throttle (lastPartial s) (lastPartialTs s) now (hypothesis_text t)")
    case False
    then show ?thesis using assms by (simp add: ws_onmessage_def Partial partial_dropped)
  next
    case True
    let ?s1 = "s\<lparr>lastPartial := hypothesis_text t, lastPartialTs := now\<rparr>"
    have ok1: "live_ok ?s1" using assms by simp
    show ?thesis
    proof (cases "currentEl s")
      case None
      then show ?thesis using ok1 by (simp add: ws_onmessage_def Partial partial_emitted [OF True])
    next
      case (Some el)
      then have "currentEl ?s1 = Some el" by simp
      from updateLiveText_shows(2) [OF ok1 this]
      show ?thesis by (simp add: ws_onmessage_def Partial partial_emitted [OF True] Some)
    qed
  qed
next
  case (Final t)
  define hyp where "hyp = trim (case t of None \<Rightarrow> [] | Some x \<Rightarrow> x)"
  define r where "r = (case currentEl s of None \<Rightarrow> Done s | Some el \<Rightarrow> finalizeLiveText s el hyp)"
  have okr: "live_ok (state_of r)"
    using assms finalizeLiveText_ok [OF assms]
    by (cases "currentEl s") (simp_all add: r_def)
  have h: "handleWsMessage s now msg
      = and_then r
          (\<lambda>s1.
             let s2 = (if hyp \<noteq> [] then
                         showToast (js ''Transcribed '' @ [10003]) ToastSuccess 1500 s1
                       else showToast (js ''No speech detected.'') ToastInfo 1600 s1)
             in Done ((resetBtn (state_of (cleanupStreaming s2 False)))
                        \<lparr>lastPartial := [], lastPartialTs := 0\<rparr>))"
    unfolding r_def hyp_def by (simp add: handleWsMessage_def Final Let_def)
  show ?thesis
  proof (cases r)
    case (Threw e x)
    then show ?thesis using okr by (simp add: ws_onmessage_def h)
  next
    case (Done x)
    then have okx: "live_ok x" using okr by simp
    have t: "live_ok (showToast m k n x)" for m k n
      using okx by (simp add: showToast_def)
    have "live_ok (state_of (cleanupStreaming (showToast m k n x) False))" for m k n
      using t by (rule cleanupStreaming_ok)
    then have "live_ok ((resetBtn (state_of (cleanupStreaming (showToast m k n x) False)))
                        \<lparr>lastPartial := [], lastPartialTs := 0\<rparr>)" for m k n
      by (simp add: resetBtn_def)
    then show ?thesis by (simp add: ws_onmessage_def h Done Let_def)
  qed
next
  case (ServerError m)
  let ?s0 = "showToast (js ''Error: '' @ m) ToastError 3200 s"
  have ok0: "live_ok ?s0" using assms by (simp add: showToast_def)
  have c: "live_ok (state_of (clearLiveText ?s0))" using ok0 by (rule clearLiveText_ok)
  show ?thesis
  proof (cases "clearLiveText ?s0")
    case (Threw e x)
    then show ?thesis using c by (simp add: ws_onmessage_def handleWsMessage_def ServerError)
  next
    case (Done x)
    then have "live_ok x" using c by simp
    then have "live_ok (state_of (cleanupStreaming x True))" by (rule cleanupStreaming_ok)
    then have "live_ok (resetBtn (state_of (cleanupStreaming x True)))"
      by (simp add: resetBtn_def)
    then show ?thesis by (simp add: ws_onmessage_def handleWsMessage_def ServerError Done)
  qed
qed (simp_all add: ws_onmessage_def handleWsMessage_def assms)

lemma hello_texts:
  "hypothesis_text (Some (js ''hello'')) = js ''hello''"
  "hypothesis_text (Some (js ''hello wor'')) = js ''hello wor''"
  "hypothesis_text (Some (js ''hello world'')) = js ''hello world''"
  "hypothesis_text (Some (js ''goodbye'')) = js ''goodbye''"
  by (simp_all add: hypothesis_text_def trim_def js_def isWhiteSpace_def)

text \<open>
  Claim C1, as the code has it. A partial hypothesis that fails one of the five checks
  changes nothing. One that passes them all sets \<open>lastPartial\<close> and \<open>lastPartialTs\<close>;
  when there is no target (\<open>currentEl\<close> is null) nothing else happens, and when there
  is one the text goes to \<open>updateLiveText\<close>, where it becomes the live text of the target
  provided the live position the script remembers lies inside the target (\<open>live_ok\<close>),
  which every message handled leaves so. While \<open>lastPartial\<close> is "hello wor", "hello"
  is dropped at any time, and "hello world" is emitted once 250 ms have passed since
  \<open>lastPartialTs\<close>.
\<close>

theorem partial_throttle:
  "(\<not> passes_throttle (lastPartial s) (lastPartialTs s) now (hypothesis_text t)
      \<longrightarrow> handleWsMessage s now (Partial t) = Done s)
   \<and> (passes_throttle (lastPartial s) (lastPartialTs s) now (hypothesis_text t)
      \<longrightarrow> lastPartial (ws_onmessage s now (Partial t)) = hypothesis_text t
          \<and> lastPartialTs (ws_onmessage s now (Partial t)) = now
          \<and> (currentEl s = None
                \<longrightarrow> handleWsMessage s now (Partial t)
                    = Done (s\<lparr>lastPartial := hypothesis_text t, lastPartialTs := now\<rparr>))
          \<and> (\<forall>el. currentEl s = Some el
                \<longrightarrow> handleWsMessage s now (Partial t)
                    = updateLiveText (s\<lparr>lastPartial := hypothesis_text t, lastPartialTs := now\<rparr>)
                        el (hypothesis_text t))
          \<and> (currentEl s \<noteq> None \<and> live_ok s
                \<longrightarrow> live_text (ws_onmessage s now (Partial t)) = Some (hypothesis_text t)))
   \<and> (live_ok s \<longrightarrow> live_ok (ws_onmessage s now msg))
   \<and> (lastPartial s = js ''hello wor''
      \<longrightarrow> handleWsMessage s now (Partial (Some (js ''hello''))) = Done s)
   \<and> (lastPartial s = js ''hello wor'' \<and> 250 \<le> now - lastPartialTs s
        \<and> currentEl s \<noteq> None \<and> live_ok s
      \<longrightarrow> live_text (ws_onmessage s now (Partial (Some (js ''hello world''))))
            = Some (js ''hello world'')
          \<and> lastPartial (ws_onmessage s now (Partial (Some (js ''hello world''))))
            = js ''hello world'')"
proof -
  have emitted: "lastPartial (ws_onmessage s now (Partial u)) = hypothesis_text u
          \<and> lastPartialTs (ws_onmessage s now (Partial u)) = now
          \<and> (currentEl s = None
                \<longrightarrow> handleWsMessage s now (Partial u)
                    = Done (s\<lparr>lastPartial := hypothesis_text u, lastPartialTs := now\<rparr>))
          \<and> (\<forall>el. currentEl s = Some el
                \<longrightarrow> handleWsMessage s now (Partial u)
                    = updateLiveText (s\<lparr>lastPartial := hypothesis_text u, lastPartialTs := now\<rparr>)
                        el (hypothesis_text u))
          \<and> (currentEl s \<noteq> None \<and> live_ok s
                \<longrightarrow> live_text (ws_onmessage s now (Partial u)) = Some (hypothesis_text u))"
    if p: "passes_throttle (lastPartial s) (lastPartialTs s) now (hypothesis_text u)" for u
  proof (cases "currentEl s")
    case None
    then show ?thesis by (simp add: ws_onmessage_def partial_emitted [OF p])
  next
    case (Some el)
    let ?s1 = "s\<lparr>lastPartial := hypothesis_text u, lastPartialTs := now\<rparr>"
    have h: "handleWsMessage s now (Partial u) = updateLiveText ?s1 el (hypothesis_text u)"
      by (simp add: partial_emitted [OF p] Some)
    have el1: "currentEl ?s1 = Some el" using Some by simp
    have ok1: "live_ok ?s1" if "live_ok s"
      using that by simp
    show ?thesis
      unfolding ws_onmessage_def h
      using updateLiveText_shows(1) [OF ok1 el1, of "hypothesis_text u"] Some
      by (simp add: updateLiveText_throttle_state)
  qed
  have hello: "handleWsMessage s now (Partial (Some (js ''hello''))) = Done s"
    if l: "lastPartial s = js ''hello wor''"
  proof -
    have "\<not> passes_throttle (lastPartial s) (lastPartialTs s) now
             (hypothesis_text (Some (js ''hello'')))"
      unfolding l hello_texts by (simp add: passes_throttle_def js_def)
    then show ?thesis by (rule partial_dropped)
  qed
  have world: "live_text (ws_onmessage s now (Partial (Some (js ''hello world''))))
            = Some (js ''hello world'')
          \<and> lastPartial (ws_onmessage s now (Partial (Some (js ''hello world''))))
            = js ''hello world''"
    if l: "lastPartial s = js ''hello wor'' \<and> 250 \<le> now - lastPartialTs s
        \<and> currentEl s \<noteq> None \<and> live_ok s"
  proof -
    have "passes_throttle (lastPartial s) (lastPartialTs s) now
             (hypothesis_text (Some (js ''hello world'')))"
      using l unfolding hello_texts by (simp add: passes_throttle_def js_def)
    from emitted [OF this] l show ?thesis by (simp add: hello_texts)
  qed
  show ?thesis
    using partial_dropped [of s now t] emitted [of t] ws_onmessage_ok [of s now msg] hello world
    by blast
qed


lemmas eval_streamer =
  streaming_session_def hello_wor_session_def stopping_session_def
  startRecording_ws_def start_failed_def streamer_init_def plain_field_def
  showToast_def setBtnRecording_def setBtnProcessing_def resetBtn_def
  ws_onmessage_def ws_onclose_def handleWsMessage_def updateLiveText_def setCaret_def
  stopRecording_ws_def wsSend_def cleanupAudioGraph_def cleanupStreaming_def
  clearLiveText_def resetLiveState_def elementRemoved_def
  trim_def js_def isWhiteSpace_def startsWith_def
  PARTIAL_MIN_CHARS_def PARTIAL_DEBOUNCE_MS_def STREAM_SAMPLE_RATE_def Let_def

lemma hello_wor_session_facts:
  "lastPartial hello_wor_session = js ''hello wor''"
  "lastPartialTs hello_wor_session = 1000"
  "currentEl hello_wor_session \<noteq> None"
  "live_ok hello_wor_session"
  "live_text hello_wor_session = Some (js ''hello wor'')"
  "isRecording hello_wor_session"
  "ws hello_wor_session = Some OPEN"
  by (simp_all add: eval_streamer live_ok_def live_text_def)

theorem partial_throttle_witness:
  "lastPartial hello_wor_session = js ''hello wor''
   \<and> handleWsMessage hello_wor_session 5000 (Partial (Some (js ''hello'')))
       = Done hello_wor_session
   \<and> handleWsMessage hello_wor_session 1249 (Partial (Some (js ''hello world'')))
       = Done hello_wor_session
   \<and> live_text (ws_onmessage hello_wor_session 1250 (Partial (Some (js ''hello world''))))
       = Some (js ''hello world'')
   \<and> lastPartialTs (ws_onmessage hello_wor_session 1250 (Partial (Some (js ''hello world''))))
       = 1250
   \<and> handleWsMessage (elementRemoved streaming_session) 1000 (Partial (Some (js ''hello'')))
       = Done ((elementRemoved streaming_session)
                 \<lparr>lastPartial := js ''hello'', lastPartialTs := 1000\<rparr>)
   \<and> handleWsMessage streaming_session 1000 (Partial (Some (js ''hello'')))
       = updateLiveText (streaming_session\<lparr>lastPartial := js ''hello'', lastPartialTs := 1000\<rparr>)
           (plain_field []) (js ''hello'')
   \<and> live_ok (ws_onmessage hello_wor_session 3000 (Final (Some (js ''hello world''))))"
proof -
  note f = hello_wor_session_facts
  note t = partial_throttle [of hello_wor_session]
  have a: "handleWsMessage hello_wor_session 5000 (Partial (Some (js ''hello'')))
       = Done hello_wor_session"
    using t [of 5000, THEN conjunct2, THEN conjunct2, THEN conjunct2, THEN conjunct1] f(1)
    by (rule mp)
  have "\<not> passes_throttle (lastPartial hello_wor_session) (lastPartialTs hello_wor_session) 1249
          (hypothesis_text (Some (js ''hello world'')))"
    by (simp add: passes_throttle_def f)
  then have b: "handleWsMessage hello_wor_session 1249 (Partial (Some (js ''hello world'')))
       = Done hello_wor_session"
    using t [of 1249 "Some (js ''hello world'')", THEN conjunct1] by blast
  have p: "passes_throttle (lastPartial hello_wor_session) (lastPartialTs hello_wor_session) 1250
          (hypothesis_text (Some (js ''hello world'')))"
    by (simp add: passes_throttle_def f hello_texts) (simp add: js_def)
  have c: "live_text (ws_onmessage hello_wor_session 1250 (Partial (Some (js ''hello world''))))
       = Some (js ''hello world'')"
    using t [of 1250 "Some (js ''hello world'')", THEN conjunct2, THEN conjunct2,
        THEN conjunct2, THEN conjunct2]
      f(1,2,3,4)
    by simp
  have d: "lastPartialTs (ws_onmessage hello_wor_session 1250 (Partial (Some (js ''hello world''))))
       = 1250"
    using t [of 1250 "Some (js ''hello world'')", THEN conjunct2, THEN conjunct1] p by blast
  have n: "currentEl (elementRemoved streaming_session) = None"
    and l: "lastPartial (elementRemoved streaming_session) = []"
    and ts: "lastPartialTs (elementRemoved streaming_session) = 0"
    by (simp_all add: eval_streamer)
  have q: "passes_throttle (lastPartial (elementRemoved streaming_session))
          (lastPartialTs (elementRemoved streaming_session)) 1000
          (hypothesis_text (Some (js ''hello'')))"
    unfolding l ts hello_texts by (simp add: passes_throttle_def js_def)
  have e: "handleWsMessage (elementRemoved streaming_session) 1000 (Partial (Some (js ''hello'')))
       = Done ((elementRemoved streaming_session)
                 \<lparr>lastPartial := js ''hello'', lastPartialTs := 1000\<rparr>)"
    using partial_throttle [of "elementRemoved streaming_session" 1000 "Some (js ''hello'')",
        THEN conjunct2, THEN conjunct1] q n
    by (simp add: hello_texts)
  have n': "currentEl streaming_session = Some (plain_field [])"
    and l': "lastPartial streaming_session = []"
    and ts': "lastPartialTs streaming_session = 0"
    by (simp_all add: eval_streamer)
  have q': "passes_throttle (lastPartial streaming_session)
          (lastPartialTs streaming_session) 1000
          (hypothesis_text (Some (js ''hello'')))"
    unfolding l' ts' hello_texts by (simp add: passes_throttle_def js_def)
  have g: "handleWsMessage streaming_session 1000 (Partial (Some (js ''hello'')))
       = updateLiveText (streaming_session\<lparr>lastPartial := js ''hello'', lastPartialTs := 1000\<rparr>)
           (plain_field []) (js ''hello'')"
    using partial_throttle [of streaming_session 1000 "Some (js ''hello'')",
        THEN conjunct2, THEN conjunct1] q' n'
    by (simp add: hello_texts)
  have k: "live_ok (ws_onmessage hello_wor_session 3000 (Final (Some (js ''hello world''))))"
    using t [of 3000 None "Final (Some (js ''hello world''))",
        THEN conjunct2, THEN conjunct2, THEN conjunct1] f(4)
    by (rule mp)
  show ?thesis using f(1) a b c d e g k by (intro conjI)
qed

text \<open>
  The counterexample to claim C1 as it is worded: once the MutationObserver has dropped
  a target that left the document, "hello" passes all five checks and \<open>lastPartial\<close>
  and \<open>lastPartialTs\<close> are updated, yet no live text is inserted anywhere.
\<close>

theorem partial_passes_without_target:
  "isRecording (elementRemoved streaming_session)
   \<and> passes_throttle (lastPartial (elementRemoved streaming_session))
         (lastPartialTs (elementRemoved streaming_session)) 1000
         (hypothesis_text (Some (js ''hello'')))
   \<and> live_text (ws_onmessage (elementRemoved streaming_session) 1000
         (Partial (Some (js ''hello'')))) = None
   \<and> currentEl (ws_onmessage (elementRemoved streaming_session) 1000
         (Partial (Some (js ''hello'')))) = None
   \<and> lastPartial (ws_onmessage (elementRemoved streaming_session) 1000
         (Partial (Some (js ''hello'')))) = js ''hello''
   \<and> lastPartialTs (ws_onmessage (elementRemoved streaming_session) 1000
         (Partial (Some (js ''hello'')))) = 1000"
  by (simp add: eval_streamer live_text_def passes_throttle_def hypothesis_text_def)

lemma hello_emitted_after_other_text:
  "live_text (ws_onmessage (ws_onmessage hello_wor_session 2000 (Partial (Some (js ''goodbye''))))
      3000 (Partial (Some (js ''hello'')))) = Some (js ''hello'')"
  by (simp add: eval_streamer live_text_def)

lemma stopRecording_ws_fields:
  "lastPartial (stopRecording_ws s) = lastPartial s"
  "lastPartialTs (stopRecording_ws s) = lastPartialTs s"
  "currentEl (stopRecording_ws s) = currentEl s"
  "liveNode (stopRecording_ws s) = liveNode s"
  "liveStartIdx (stopRecording_ws s) = liveStartIdx s"
  "livePrevLen (stopRecording_ws s) = livePrevLen s"
  "ws (stopRecording_ws s) = ws s"
  by (simp_all add: stopRecording_ws_def wsSend_def cleanupAudioGraph_def showToast_def
        setBtnProcessing_def)

lemma stop_partial_commute:
  "ws_onmessage (stopRecording_ws s) now (Partial t)
   = stopRecording_ws (ws_onmessage s now (Partial t))"
proof (cases "passes_throttle (lastPartial s) (lastPartialTs s) now (hypothesis_text t)")
  case False
  then show ?thesis
    using partial_dropped [of s now t] partial_dropped [of "stopRecording_ws s" now t]
    by (simp add: ws_onmessage_def stopRecording_ws_fields)
next
  case True
  have p: "passes_throttle (lastPartial (stopRecording_ws s)) (lastPartialTs (stopRecording_ws s))
      now (hypothesis_text t)"
    using True by (simp add: stopRecording_ws_fields)
  show ?thesis
    unfolding ws_onmessage_def partial_emitted [OF True] partial_emitted [OF p]
    by (cases "currentEl s")
       (auto simp add: stopRecording_ws_def wsSend_def cleanupAudioGraph_def showToast_def
          setBtnProcessing_def updateLiveText_def with_el_setCaret Let_def
          split: option.splits selection.splits)
qed

lemma live_text_stop: "live_text (stopRecording_ws s) = live_text s"
  by (simp add: live_text_def stopRecording_ws_fields split: option.splits)

text \<open>
  Claim C6, as the code has it. \<open>stopRecording\<close> sends the stop message, releases the
  audio graph and leaves the socket and the throttle state as they are; it changes
  nothing in how a partial message is handled afterwards (handling it after the stop,
  or before it, gives the same state). So a partial that arrives after the stop and
  passes the throttle becomes the live text of the target, under the conditions of
  claim C1, and one that fails the throttle changes nothing.
\<close>

theorem partial_after_stop:
  "ws_onmessage (stopRecording_ws s) now (Partial t)
     = stopRecording_ws (ws_onmessage s now (Partial t))
   \<and> ws (stopRecording_ws s) = ws s
   \<and> lastPartial (stopRecording_ws s) = lastPartial s
   \<and> lastPartialTs (stopRecording_ws s) = lastPartialTs s
   \<and> (isRecording s \<and> ws s = Some OPEN
        \<longrightarrow> sent (stopRecording_ws s) = sent s @ [StopMsg]
            \<and> audioCtx (stopRecording_ws s) = None
            \<and> \<not> isRecording (stopRecording_ws s))
   \<and> (passes_throttle (lastPartial s) (lastPartialTs s) now (hypothesis_text t)
        \<and> currentEl s \<noteq> None \<and> live_ok s
        \<longrightarrow> live_text (ws_onmessage (stopRecording_ws s) now (Partial t))
              = Some (hypothesis_text t)
            \<and> lastPartial (ws_onmessage (stopRecording_ws s) now (Partial t))
              = hypothesis_text t)
   \<and> (\<not> passes_throttle (lastPartial s) (lastPartialTs s) now (hypothesis_text t)
        \<longrightarrow> ws_onmessage (stopRecording_ws s) now (Partial t) = stopRecording_ws s)"
proof -
  have b: "sent (stopRecording_ws s) = sent s @ [StopMsg]
            \<and> audioCtx (stopRecording_ws s) = None
            \<and> \<not> isRecording (stopRecording_ws s)"
    if "isRecording s \<and> ws s = Some OPEN"
    using that
    by (simp add: stopRecording_ws_def wsSend_def cleanupAudioGraph_def showToast_def
          setBtnProcessing_def)
  have c: "live_text (ws_onmessage (stopRecording_ws s) now (Partial t))
              = Some (hypothesis_text t)
            \<and> lastPartial (ws_onmessage (stopRecording_ws s) now (Partial t))
              = hypothesis_text t"
    if h: "passes_throttle (lastPartial s) (lastPartialTs s) now (hypothesis_text t)
        \<and> currentEl s \<noteq> None \<and> live_ok s"
  proof -
    obtain el where el: "currentEl s = Some el" using h by auto
    let ?s1 = "s\<lparr>lastPartial := hypothesis_text t, lastPartialTs := now\<rparr>"
    have m: "ws_onmessage s now (Partial t) = state_of (updateLiveText ?s1 el (hypothesis_text t))"
      using h el by (simp add: ws_onmessage_def partial_emitted)
    have ok1: "live_ok ?s1" using h by simp
    have el1: "currentEl ?s1 = Some el" using el by simp
    have "live_text (ws_onmessage s now (Partial t)) = Some (hypothesis_text t)"
      unfolding m using updateLiveText_shows(1) [OF ok1 el1] .
    moreover have "lastPartial (ws_onmessage s now (Partial t)) = hypothesis_text t"
      unfolding m by (simp add: updateLiveText_throttle_state)
    ultimately show ?thesis
      unfolding stop_partial_commute by (simp add: live_text_stop stopRecording_ws_fields)
  qed
  have d: "ws_onmessage (stopRecording_ws s) now (Partial t) = stopRecording_ws s"
    if "\<not> passes_throttle (lastPartial s) (lastPartialTs s) now (hypothesis_text t)"
    unfolding stop_partial_commute using that by (simp add: ws_onmessage_def partial_dropped)
  show ?thesis
    using stop_partial_commute [of s now t] stopRecording_ws_fields(1,2,7) [of s] b c d
    by (intro conjI impI) simp_all
qed

lemma stopping_session_facts:
  "\<not> isRecording stopping_session"
  "ws stopping_session = Some OPEN"
  "audioCtx stopping_session = None"
  "micBtn stopping_session = BtnProcessing"
  "sent stopping_session = [StartMsg STREAM_SAMPLE_RATE (js ''en''), StopMsg]"
  "live_text stopping_session = Some (js ''hello wor'')"
  "lastPartial stopping_session = js ''hello wor''"
  "liveStartIdx stopping_session = Some 0"
  "map_option fieldValue (currentEl stopping_session) = Some (js ''hello wor'')"
  by (simp_all add: eval_streamer live_text_def)

theorem partial_after_stop_witness:
  "isRecording hello_wor_session \<and> ws hello_wor_session = Some OPEN
   \<and> sent (stopRecording_ws hello_wor_session) = sent hello_wor_session @ [StopMsg]
   \<and> audioCtx (stopRecording_ws hello_wor_session) = None
   \<and> \<not> isRecording (stopRecording_ws hello_wor_session)
   \<and> ws (stopRecording_ws hello_wor_session) = Some OPEN
   \<and> ws_onmessage (stopRecording_ws hello_wor_session) 2000 (Partial (Some (js ''hello world'')))
       = stopRecording_ws
           (ws_onmessage hello_wor_session 2000 (Partial (Some (js ''hello world''))))
   \<and> live_text (ws_onmessage (stopRecording_ws hello_wor_session) 2000
         (Partial (Some (js ''hello world'')))) = Some (js ''hello world'')
   \<and> ws_onmessage (stopRecording_ws hello_wor_session) 2000 (Partial (Some (js ''hello'')))
       = stopRecording_ws hello_wor_session"
proof -
  note f = hello_wor_session_facts
  note t = partial_after_stop [of hello_wor_session 2000 "Some (js ''hello world'')"]
  note u = partial_after_stop [of hello_wor_session 2000 "Some (js ''hello'')"]
  have a: "ws_onmessage (stopRecording_ws hello_wor_session) 2000
             (Partial (Some (js ''hello world'')))
       = stopRecording_ws
           (ws_onmessage hello_wor_session 2000 (Partial (Some (js ''hello world''))))"
    using t [THEN conjunct1] .
  have b: "ws (stopRecording_ws hello_wor_session) = Some OPEN"
    using t [THEN conjunct2, THEN conjunct1] f(7) by simp
  have c: "sent (stopRecording_ws hello_wor_session) = sent hello_wor_session @ [StopMsg]
            \<and> audioCtx (stopRecording_ws hello_wor_session) = None
            \<and> \<not> isRecording (stopRecording_ws hello_wor_session)"
    using t [THEN conjunct2, THEN conjunct2, THEN conjunct2, THEN conjunct2, THEN conjunct1]
      f(6,7)
    by blast
  have p: "passes_throttle (lastPartial hello_wor_session) (lastPartialTs hello_wor_session) 2000
          (hypothesis_text (Some (js ''hello world'')))"
    by (simp add: passes_throttle_def f hello_texts) (simp add: js_def)
  have d: "live_text (ws_onmessage (stopRecording_ws hello_wor_session) 2000
         (Partial (Some (js ''hello world'')))) = Some (js ''hello world'')"
    using t [THEN conjunct2, THEN conjunct2, THEN conjunct2, THEN conjunct2, THEN conjunct2,
        THEN conjunct1] p f(3,4)
    by (simp add: hello_texts)
  have q: "\<not> passes_throttle (lastPartial hello_wor_session) (lastPartialTs hello_wor_session)
          2000 (hypothesis_text (Some (js ''hello'')))"
    by (simp add: passes_throttle_def f hello_texts) (simp add: js_def)
  have e: "ws_onmessage (stopRecording_ws hello_wor_session) 2000 (Partial (Some (js ''hello'')))
       = stopRecording_ws hello_wor_session"
    using u [THEN conjunct2, THEN conjunct2, THEN conjunct2, THEN conjunct2, THEN conjunct2,
        THEN conjunct2] q
    by (rule mp)
  show ?thesis using f(6,7) a b c d e by (intro conjI) simp_all
qed

text \<open>
  The counterexample to claim C6 as it is worded: the user has stopped the session
  (stop message sent, \<open>isRecording\<close> false, the button processing); the partial
  "hello world" then arrives on the open socket and replaces the live text of the field.
\<close>

theorem partial_inserted_after_stop:
  "\<not> isRecording stopping_session
   \<and> micBtn stopping_session = BtnProcessing
   \<and> sent stopping_session = [StartMsg STREAM_SAMPLE_RATE (js ''en''), StopMsg]
   \<and> live_text stopping_session = Some (js ''hello wor'')
   \<and> live_text (ws_onmessage stopping_session 2000 (Partial (Some (js ''hello world''))))
       = Some (js ''hello world'')
   \<and> map_option fieldValue
         (currentEl (ws_onmessage stopping_session 2000 (Partial (Some (js ''hello world'')))))
       = Some (js ''hello world'')"
  by (simp add: eval_streamer live_text_def)

lemma live_text_ws_update: "live_text (s\<lparr>ws := x\<rparr>) = live_text s"
  by (simp add: live_text_def split: option.splits)

text \<open>
  Claim C7. The claim has every non-terminal state treat an unexpected close as a
  cancel. \<open>ws.onclose\<close> does so only while \<open>isRecording\<close> holds: when the socket closes
  after the user has stopped and before the final result, the handler changes nothing
  but the ready state: the live text "hello wor" stays in the field, \<open>lastPartial\<close>
  and the live position are kept, and the button stays in its processing state. The
  same close while still recording removes the live text and resets the state.
\<close>

theorem close_while_stopping_keeps_state:
  "\<not> isRecording stopping_session \<and> ws stopping_session = Some OPEN
   \<and> ws_onclose stopping_session = stopping_session\<lparr>ws := Some CLOSED\<rparr>
   \<and> map_option fieldValue (currentEl (ws_onclose stopping_session)) = Some (js ''hello wor'')
   \<and> live_text (ws_onclose stopping_session) = Some (js ''hello wor'')
   \<and> lastPartial (ws_onclose stopping_session) = js ''hello wor''
   \<and> liveStartIdx (ws_onclose stopping_session) = Some 0
   \<and> micBtn (ws_onclose stopping_session) = BtnProcessing
   \<and> map_option fieldValue (currentEl (ws_onclose hello_wor_session)) = Some []
   \<and> live_text (ws_onclose hello_wor_session) = None
   \<and> lastPartial (ws_onclose hello_wor_session) = []
   \<and> liveStartIdx (ws_onclose hello_wor_session) = None
   \<and> ws (ws_onclose hello_wor_session) = None
   \<and> micBtn (ws_onclose hello_wor_session) = BtnIdle"
proof -
  note f = stopping_session_facts
  have c: "ws_onclose stopping_session = stopping_session\<lparr>ws := Some CLOSED\<rparr>"
    by (simp add: ws_onclose_def f)
  have r: "map_option fieldValue (currentEl (ws_onclose hello_wor_session)) = Some []"
    "live_text (ws_onclose hello_wor_session) = None"
    "lastPartial (ws_onclose hello_wor_session) = []"
    "liveStartIdx (ws_onclose hello_wor_session) = None"
    "ws (ws_onclose hello_wor_session) = None"
    "micBtn (ws_onclose hello_wor_session) = BtnIdle"
    by (simp_all add: eval_streamer live_text_def)
  have k: "map_option fieldValue (currentEl (ws_onclose stopping_session)) = Some (js ''hello wor'')"
    "live_text (ws_onclose stopping_session) = Some (js ''hello wor'')"
    "lastPartial (ws_onclose stopping_session) = js ''hello wor''"
    "liveStartIdx (ws_onclose stopping_session) = Some 0"
    "micBtn (ws_onclose stopping_session) = BtnProcessing"
    unfolding c using f by (simp_all add: live_text_ws_update)
  show ?thesis using f(1,2) c r k by (intro conjI)
qed

end
